theory Spec2Isabelle
  imports Main "HOL-Library.Word"
begin

section \<open>Memory model\<close>

text \<open>
  \<^verbatim>\<open>gb_string.h\<close> stores a string as one allocated block: a
  \<^verbatim>\<open>struct gb_String_Header { gb_usize len; gb_usize cap; }\<close> followed by the
  characters and a terminating zero. The handle \<^verbatim>\<open>gb_String\<close> handed to callers
  points just behind the header.

  \<^verbatim>\<open>gb_usize\<close> is \<^verbatim>\<open>size_t\<close>; it is modelled for a 64-bit little-endian target as a
  64-bit word, so every size computation of the source wraps around as it does in C, and
  \<^verbatim>\<open>sizeof(struct gb_String_Header)\<close> is 16. A \<^verbatim>\<open>char\<close> is an 8-bit word.
\<close>

unbundle bit_operations_syntax

type_synonym gb_usize = "64 word"
type_synonym byte = "8 word"

record gb_String_Header =
  len :: gb_usize
  cap :: gb_usize

definition header_size :: gb_usize where
  "header_size = 16"

text \<open>
  A block of the allocator: \<open>bsize\<close> is the number of bytes that were requested for
  it (a \<^verbatim>\<open>size_t\<close>), \<open>header\<close> holds the two header fields (they occupy the bytes \<open>0..15\<close> of the
  block), and \<open>chars b i\<close> is the byte at offset \<open>16 + i\<close>. The byte \<open>chars b i\<close>
  belongs to the block only when \<open>16 + i < unat (bsize b)\<close>, and the header only when
  \<open>16 \<le> unat (bsize b)\<close>; every access below checks this, and an access outside the block
  (undefined behaviour in C) is a \<open>fault\<close>.
\<close>

record block =
  bsize :: gb_usize
  header :: gb_String_Header
  chars :: "nat \<Rightarrow> byte"

text \<open>
  The bytes of the header: \<open>len\<close> occupies the bytes \<open>0..7\<close> of the block and \<open>cap\<close> the
  bytes \<open>8..15\<close>, least significant byte first. \<open>set_byte w k c\<close> is the word \<open>w\<close> with
  its byte \<open>k\<close> replaced by \<open>c\<close>, and \<open>store_header_byte hdr j c\<close> is the header after
  the byte \<open>j\<close> of the block has been overwritten with \<open>c\<close>.
\<close>

definition set_byte :: "gb_usize \<Rightarrow> nat \<Rightarrow> byte \<Rightarrow> gb_usize" where
  "set_byte w k c = (w AND NOT (push_bit (8 * k) 255)) OR push_bit (8 * k) (ucast c)"

definition store_header_byte :: "gb_String_Header \<Rightarrow> nat \<Rightarrow> byte \<Rightarrow> gb_String_Header" where
  "store_header_byte hdr j c =
     (if j < 8 then hdr\<lparr>len := set_byte (len hdr) j c\<rparr>
      else hdr\<lparr>cap := set_byte (cap hdr) (j - 8) c\<rparr>)"

text \<open>
  The heap maps the addresses of the live blocks to their contents. A pointer is
  \<open>None\<close> (the null pointer) or \<open>Some p\<close> for the block at address \<open>p\<close>. The source
  uses two pointers into a block, its base (\<^verbatim>\<open>ptr\<close>) and the handle
  (\<^verbatim>\<open>str = ptr + sizeof(header)\<close>); both name the same block here, and offsets into the
  characters are counted from the handle.
\<close>

type_synonym heap = "nat \<Rightarrow> block option"
type_synonym gb_String = "nat option"

datatype fault = NullPointer | DanglingPointer | OutOfBounds

definition andthen :: "fault + 'a \<Rightarrow> ('a \<Rightarrow> fault + 'b) \<Rightarrow> fault + 'b" where
  "andthen m f = (case m of Inl e \<Rightarrow> Inl e | Inr x \<Rightarrow> f x)"

definition deref :: "heap \<Rightarrow> gb_String \<Rightarrow> fault + block" where
  "deref h s =
     (case s of
        None \<Rightarrow> Inl NullPointer
      | Some p \<Rightarrow> (case h p of None \<Rightarrow> Inl DanglingPointer | Some b \<Rightarrow> Inr b))"

definition modify :: "heap \<Rightarrow> gb_String \<Rightarrow> (block \<Rightarrow> fault + block) \<Rightarrow> fault + heap" where
  "modify h s f =
     (case s of
        None \<Rightarrow> Inl NullPointer
      | Some p \<Rightarrow>
          (case h p of
             None \<Rightarrow> Inl DanglingPointer
           | Some b \<Rightarrow> (case f b of Inl e \<Rightarrow> Inl e | Inr b' \<Rightarrow> Inr (h(p \<mapsto> b')))))"

subsection \<open>Accesses through a handle\<close>

text \<open>\<^verbatim>\<open>GB_STRING_HEADER(s)\<close>: the header in front of the handle.\<close>

definition GB_STRING_HEADER :: "heap \<Rightarrow> gb_String \<Rightarrow> fault + gb_String_Header" where
  "GB_STRING_HEADER h s =
     andthen (deref h s) (\<lambda>b.
       if bsize b < header_size then Inl OutOfBounds else Inr (header b))"

text \<open>\<^verbatim>\<open>c = str[i]\<close> for an offset \<open>i\<close> that a cursor has reached.\<close>

definition load_char :: "block \<Rightarrow> int \<Rightarrow> fault + byte" where
  "load_char b i =
     (if 0 \<le> i \<and> unat header_size + nat i < unat (bsize b) then Inr (chars b (nat i))
      else Inl OutOfBounds)"

text \<open>
  \<^verbatim>\<open>str[i] = c\<close> for an index \<open>i\<close> of type \<^verbatim>\<open>gb_usize\<close>. The address \<^verbatim>\<open>str + i\<close> is
  computed modulo \<open>2^64\<close>: it is the byte \<open>header_size + i\<close> of the block, where the sum
  wraps around. For \<open>i < 2^64 - 16\<close> that is the character \<open>i\<close>; the sixteen largest
  indices land in the header (\<^verbatim>\<open>str[SIZE_MAX]\<close> is \<^verbatim>\<open>str[-1]\<close>, the last byte of
  \<open>cap\<close>). The write is a fault when that byte is not in the block.
\<close>

definition store_char :: "heap \<Rightarrow> gb_String \<Rightarrow> gb_usize \<Rightarrow> byte \<Rightarrow> fault + heap" where
  "store_char h s i c =
     modify h s (\<lambda>b.
       let off = header_size + i in
       if off < bsize b then
         (if off < header_size then Inr (b\<lparr>header := store_header_byte (header b) (unat off) c\<rparr>)
          else Inr (b\<lparr>chars := (chars b)(unat i := c)\<rparr>))
       else Inl OutOfBounds)"

text \<open>
  \<^verbatim>\<open>memcpy(str + off, src, n)\<close> where \<open>src\<close> points at memory outside the heap blocks of
  the model (a caller's array), given as the list of the bytes stored there. Reading
  more bytes than the array holds is a fault.
\<close>

definition memcpy_in :: "heap \<Rightarrow> gb_String \<Rightarrow> gb_usize \<Rightarrow> byte list \<Rightarrow> gb_usize \<Rightarrow> fault + heap" where
  "memcpy_in h s off src n =
     modify h s (\<lambda>b.
       if unat n \<le> length src \<and> unat header_size + unat off + unat n \<le> unat (bsize b)
       then Inr (b\<lparr>chars := (\<lambda>i. if unat off \<le> i \<and> i < unat off + unat n
                                   then src ! (i - unat off) else chars b i)\<rparr>)
       else Inl OutOfBounds)"

text \<open>\<^verbatim>\<open>memmove(str, str + from, n)\<close>: all bytes are read before any is written.\<close>

definition memmove_front :: "heap \<Rightarrow> gb_String \<Rightarrow> int \<Rightarrow> gb_usize \<Rightarrow> fault + heap" where
  "memmove_front h s from n =
     modify h s (\<lambda>b.
       if 0 \<le> from \<and> unat header_size + nat from + unat n \<le> unat (bsize b)
       then Inr (b\<lparr>chars := (\<lambda>i. if i < unat n then chars b (nat from + i) else chars b i)\<rparr>)
       else Inl OutOfBounds)"

subsection \<open>Accesses from the base of a block\<close>

text \<open>
  \<^verbatim>\<open>memset(ptr, 0, n)\<close> and \<^verbatim>\<open>memcpy(new_ptr, ptr, n)\<close> work on the raw block. The
  header fields are words of the model, so these two set or copy them only when
  \<open>n\<close> covers the whole header; a shorter count leaves the fields of the target as
  they were. No call on a block that holds a header uses a shorter count.
\<close>

definition memset_zero :: "heap \<Rightarrow> gb_String \<Rightarrow> gb_usize \<Rightarrow> fault + heap" where
  "memset_zero h ptr n =
     modify h ptr (\<lambda>b.
       if unat n \<le> unat (bsize b)
       then Inr (b\<lparr>header := (if unat header_size \<le> unat n then \<lparr>len = 0, cap = 0\<rparr> else header b),
                  chars := (\<lambda>i. if unat header_size + i < unat n then 0 else chars b i)\<rparr>)
       else Inl OutOfBounds)"

definition memcpy_block :: "heap \<Rightarrow> gb_String \<Rightarrow> gb_String \<Rightarrow> gb_usize \<Rightarrow> fault + heap" where
  "memcpy_block h dst src n =
     andthen (deref h src) (\<lambda>sb.
       modify h dst (\<lambda>db.
         if unat n \<le> unat (bsize sb) \<and> unat n \<le> unat (bsize db)
         then Inr (db\<lparr>header := (if unat header_size \<le> unat n then header sb else header db),
                     chars := (\<lambda>i. if unat header_size + i < unat n then chars sb i else chars db i)\<rparr>)
         else Inl OutOfBounds))"

subsection \<open>The allocator\<close>

text \<open>
  \<^verbatim>\<open>GB_ALLOC\<close> and \<^verbatim>\<open>GB_FREE\<close> default to \<^verbatim>\<open>malloc\<close> and \<^verbatim>\<open>free\<close>. What
  \<^verbatim>\<open>malloc\<close> answers is not decided by the program, so the allocator is a parameter:
  asked for \<open>sz\<close> bytes in heap \<open>h\<close> it fails (\<open>None\<close>) or names the address of the new
  block together with the indeterminate contents the block starts with.
\<close>

type_synonym allocator = "heap \<Rightarrow> gb_usize \<Rightarrow> (nat \<times> block) option"

definition GB_ALLOC :: "allocator \<Rightarrow> heap \<Rightarrow> gb_usize \<Rightarrow> gb_String \<times> heap" where
  "GB_ALLOC a h sz =
     (case a h sz of
        None \<Rightarrow> (None, h)
      | Some (p, g) \<Rightarrow> (Some p, h(p \<mapsto> g\<lparr>bsize := sz\<rparr>)))"

definition GB_FREE :: "heap \<Rightarrow> gb_String \<Rightarrow> fault + heap" where
  "GB_FREE h ptr =
     (case ptr of
        None \<Rightarrow> Inr h
      | Some p \<Rightarrow> (case h p of None \<Rightarrow> Inl DanglingPointer | Some b \<Rightarrow> Inr (h(p := None))))"

text \<open>An allocator never hands out the address of a block that is still live.\<close>

definition allocator_ok :: "allocator \<Rightarrow> heap \<Rightarrow> bool" where
  "allocator_ok a h = (\<forall>sz p g. a h sz = Some (p, g) \<longrightarrow> h p = None)"

subsection \<open>C strings\<close>

text \<open>
  A \<^verbatim>\<open>const char*\<close> argument is given as a list of bytes \<open>s\<close> and stands for the
  memory \<open>s @ [0]\<close>: the string ends at the first zero byte of \<open>s\<close>, or at the zero
  behind it.
\<close>

fun strlen_nat :: "byte list \<Rightarrow> nat" where
  "strlen_nat [] = 0"
| "strlen_nat (c # cs) = (if c = 0 then 0 else Suc (strlen_nat cs))"

definition strlen :: "byte list \<Rightarrow> gb_usize" where
  "strlen s = of_nat (strlen_nat s)"

text \<open>
  \<^verbatim>\<open>strchr(s, c)\<close>: the position of the first occurrence of \<open>c\<close> in the string,
  whose terminating zero counts as part of it; \<open>None\<close> is the null pointer.
\<close>

fun strchr :: "byte list \<Rightarrow> byte \<Rightarrow> nat option" where
  "strchr [] c = (if c = 0 then Some 0 else None)"
| "strchr (x # xs) c =
     (if x = c then Some 0
      else if x = 0 then None
      else map_option Suc (strchr xs c))"

section \<open>The library\<close>

definition gb_set_string_length :: "heap \<Rightarrow> gb_String \<Rightarrow> gb_usize \<Rightarrow> fault + heap" where
  "gb_set_string_length h str n =
     modify h str (\<lambda>b.
       if bsize b < header_size then Inl OutOfBounds
       else Inr (b\<lparr>header := (header b)\<lparr>len := n\<rparr>\<rparr>))"

definition gb_set_string_capacity :: "heap \<Rightarrow> gb_String \<Rightarrow> gb_usize \<Rightarrow> fault + heap" where
  "gb_set_string_capacity h str c =
     modify h str (\<lambda>b.
       if bsize b < header_size then Inl OutOfBounds
       else Inr (b\<lparr>header := (header b)\<lparr>cap := c\<rparr>\<rparr>))"

text \<open>
  \<^verbatim>\<open>gb_make_string_length\<close>. The \<^verbatim>\<open>memset\<close> of the source comes before the test of
  \<^verbatim>\<open>ptr\<close>, so with a null \<^verbatim>\<open>init_str\<close> a failed allocation is written through.
\<close>

definition gb_make_string_length ::
  "allocator \<Rightarrow> heap \<Rightarrow> byte list option \<Rightarrow> gb_usize \<Rightarrow> fault + (gb_String \<times> heap)" where
  "gb_make_string_length a h init_str n =
     (case GB_ALLOC a h (header_size + n + 1) of (ptr, h0) \<Rightarrow>
        andthen (if init_str = None then memset_zero h0 ptr (header_size + n + 1) else Inr h0) (\<lambda>h1.
          if ptr = None then Inr (None, h1)
          else
            andthen (gb_set_string_length h1 ptr n) (\<lambda>h2.
            andthen (gb_set_string_capacity h2 ptr n) (\<lambda>h3.
            andthen (case init_str of
                       Some src \<Rightarrow> if n \<noteq> 0 then memcpy_in h3 ptr 0 src n else Inr h3
                     | None \<Rightarrow> Inr h3) (\<lambda>h4.
            andthen (store_char h4 ptr n 0) (\<lambda>h5.
              Inr (ptr, h5)))))))"

definition gb_make_string ::
  "allocator \<Rightarrow> heap \<Rightarrow> byte list option \<Rightarrow> fault + (gb_String \<times> heap)" where
  "gb_make_string a h str =
     gb_make_string_length a h str (case str of Some s \<Rightarrow> strlen s | None \<Rightarrow> 0)"

definition gb_free_string :: "heap \<Rightarrow> gb_String \<Rightarrow> fault + heap" where
  "gb_free_string h str = (if str = None then Inr h else GB_FREE h str)"

definition gb_string_length :: "heap \<Rightarrow> gb_String \<Rightarrow> fault + gb_usize" where
  "gb_string_length h str = andthen (GB_STRING_HEADER h str) (\<lambda>hd. Inr (len hd))"

definition gb_string_capacity :: "heap \<Rightarrow> gb_String \<Rightarrow> fault + gb_usize" where
  "gb_string_capacity h str = andthen (GB_STRING_HEADER h str) (\<lambda>hd. Inr (cap hd))"

definition gb_string_available_space :: "heap \<Rightarrow> gb_String \<Rightarrow> fault + gb_usize" where
  "gb_string_available_space h str =
     andthen (GB_STRING_HEADER h str) (\<lambda>hd.
       if cap hd > len hd then Inr (cap hd - len hd) else Inr 0)"

definition gb_clear_string :: "heap \<Rightarrow> gb_String \<Rightarrow> fault + heap" where
  "gb_clear_string h str =
     andthen (gb_set_string_length h str 0) (\<lambda>h1. store_char h1 str 0 0)"

definition gb__string_realloc ::
  "allocator \<Rightarrow> heap \<Rightarrow> gb_String \<Rightarrow> gb_usize \<Rightarrow> gb_usize \<Rightarrow> fault + (gb_String \<times> heap)" where
  "gb__string_realloc a h ptr old_size new_size =
     (if ptr = None then Inr (GB_ALLOC a h new_size)
      else
        let new_size = (if new_size < old_size then old_size else new_size) in
        if old_size = new_size then Inr (ptr, h)
        else
          (case GB_ALLOC a h new_size of (new_ptr, h1) \<Rightarrow>
             if new_ptr = None then Inr (None, h1)
             else
               andthen (memcpy_block h1 new_ptr ptr old_size) (\<lambda>h2.
               andthen (GB_FREE h2 ptr) (\<lambda>h3.
                 Inr (new_ptr, h3)))))"

definition gb_string_make_space_for ::
  "allocator \<Rightarrow> heap \<Rightarrow> gb_String \<Rightarrow> gb_usize \<Rightarrow> fault + (gb_String \<times> heap)" where
  "gb_string_make_space_for a h str add_len =
     andthen (gb_string_length h str) (\<lambda>n.
       let new_len = n + add_len in
       andthen (gb_string_available_space h str) (\<lambda>available.
         if available \<ge> add_len then Inr (str, h)
         else
           andthen (gb_string_length h str) (\<lambda>n'.
             let old_size = header_size + n' + 1;
                 new_size = header_size + new_len + 1 in
             andthen (gb__string_realloc a h str old_size new_size) (\<lambda>(new_ptr, h1).
               if new_ptr = None then Inr (None, h1)
               else
                 andthen (gb_set_string_capacity h1 new_ptr new_len) (\<lambda>h2.
                   Inr (new_ptr, h2))))))"

definition gb_append_string_length ::
  "allocator \<Rightarrow> heap \<Rightarrow> gb_String \<Rightarrow> byte list \<Rightarrow> gb_usize \<Rightarrow> fault + (gb_String \<times> heap)" where
  "gb_append_string_length a h str other other_len =
     andthen (gb_string_length h str) (\<lambda>curr_len.
     andthen (gb_string_make_space_for a h str other_len) (\<lambda>(str1, h1).
       if str1 = None then Inr (None, h1)
       else
         andthen (memcpy_in h1 str1 curr_len other other_len) (\<lambda>h2.
         andthen (store_char h2 str1 (curr_len + other_len) 0) (\<lambda>h3.
         andthen (gb_set_string_length h3 str1 (curr_len + other_len)) (\<lambda>h4.
           Inr (str1, h4))))))"

definition gb_append_cstring ::
  "allocator \<Rightarrow> heap \<Rightarrow> gb_String \<Rightarrow> byte list \<Rightarrow> fault + (gb_String \<times> heap)" where
  "gb_append_cstring a h str other = gb_append_string_length a h str other (strlen other)"

definition gb_set_string ::
  "allocator \<Rightarrow> heap \<Rightarrow> gb_String \<Rightarrow> byte list \<Rightarrow> fault + (gb_String \<times> heap)" where
  "gb_set_string a h str cstr =
     (let n = strlen cstr;
          finish = (\<lambda>(str1, h1).
            andthen (memcpy_in h1 str1 0 cstr n) (\<lambda>h2.
            andthen (store_char h2 str1 n 0) (\<lambda>h3.
            andthen (gb_set_string_length h3 str1 n) (\<lambda>h4.
              Inr (str1, h4)))))
      in
        andthen (gb_string_capacity h str) (\<lambda>c.
          if c < n then
            andthen (gb_string_length h str) (\<lambda>l.
            andthen (gb_string_make_space_for a h str (n - l)) (\<lambda>(str1, h1).
              if str1 = None then Inr (None, h1) else finish (str1, h1)))
          else finish (str, h)))"

text \<open>
  \<^verbatim>\<open>gb_trim_string\<close>. The cursors \<^verbatim>\<open>start_pos\<close> and \<^verbatim>\<open>end_pos\<close> are offsets from
  the handle; \<^verbatim>\<open>end = str + len - 1\<close> is the offset \<open>-1\<close> for an empty string (it
  points at the last byte of the header).
\<close>

function trim_start :: "block \<Rightarrow> byte list \<Rightarrow> int \<Rightarrow> int \<Rightarrow> fault + int" where
  "trim_start b cut_set start_pos endp =
     (if start_pos \<le> endp then
        (case load_char b start_pos of
           Inl e \<Rightarrow> Inl e
         | Inr c \<Rightarrow>
             if strchr cut_set c \<noteq> None then trim_start b cut_set (start_pos + 1) endp
             else Inr start_pos)
      else Inr start_pos)"
  by pat_completeness auto
termination
  by (relation "measure (\<lambda>(b, cut_set, start_pos, endp). nat (endp + 1 - start_pos))") auto

function trim_end :: "block \<Rightarrow> byte list \<Rightarrow> int \<Rightarrow> int \<Rightarrow> fault + int" where
  "trim_end b cut_set start_pos end_pos =
     (if end_pos > start_pos then
        (case load_char b end_pos of
           Inl e \<Rightarrow> Inl e
         | Inr c \<Rightarrow>
             if strchr cut_set c \<noteq> None then trim_end b cut_set start_pos (end_pos - 1)
             else Inr end_pos)
      else Inr end_pos)"
  by pat_completeness auto
termination
  by (relation "measure (\<lambda>(b, cut_set, start_pos, end_pos). nat (end_pos - start_pos))") auto

declare trim_start.simps [simp del] trim_end.simps [simp del]

definition gb_trim_string ::
  "heap \<Rightarrow> gb_String \<Rightarrow> byte list \<Rightarrow> fault + (gb_String \<times> heap)" where
  "gb_trim_string h str cut_set =
     andthen (gb_string_length h str) (\<lambda>n.
     andthen (deref h str) (\<lambda>b.
       let endp = int (unat n) - 1 in
       andthen (trim_start b cut_set 0 endp) (\<lambda>start_pos.
       andthen (trim_end b cut_set start_pos endp) (\<lambda>end_pos.
         let n1 = (if start_pos > end_pos then 0 else word_of_int ((end_pos - start_pos) + 1)) in
         andthen (if start_pos \<noteq> 0 then memmove_front h str start_pos n1 else Inr h) (\<lambda>h1.
         andthen (store_char h1 str n1 0) (\<lambda>h2.
         andthen (gb_set_string_length h2 str n1) (\<lambda>h3.
           Inr (str, h3))))))))"

section \<open>Well-formed strings\<close>

text \<open>
  What the library maintains about the block behind a handle: the block holds the
  header, \<open>cap\<close> characters and the terminator, the length does not exceed the
  capacity, and the character at offset \<open>len\<close> is zero.
\<close>

definition block_ok :: "block \<Rightarrow> bool" where
  "block_ok b =
     (unat header_size + unat (cap (header b)) + 1 \<le> unat (bsize b) \<and>
      len (header b) \<le> cap (header b) \<and>
      chars b (unat (len (header b))) = 0)"

definition gb_string_ok :: "heap \<Rightarrow> gb_String \<Rightarrow> bool" where
  "gb_string_ok h s = (case deref h s of Inl e \<Rightarrow> False | Inr b \<Rightarrow> block_ok b)"

text \<open>
  What the two invariants of the data model alone say about a block: the length does
  not exceed the capacity, and the character at offset \<open>len\<close> is a byte of the block and
  is zero. Nothing is said about the room behind it.
\<close>

definition block_inv :: "block \<Rightarrow> bool" where
  "block_inv b =
     (len (header b) \<le> cap (header b) \<and>
      unat header_size + unat (len (header b)) < unat (bsize b) \<and>
      chars b (unat (len (header b))) = 0)"

text \<open>The payload: the first \<open>len\<close> characters.\<close>

definition payload :: "block \<Rightarrow> byte list" where
  "payload b = map (chars b) [0..<unat (len (header b))]"

text \<open>
  The test \<^verbatim>\<open>strchr(cut_set, c)\<close> of \<^verbatim>\<open>gb_trim_string\<close>, and a list without its
  longest prefix and its longest suffix of bytes that pass a test.
\<close>

definition in_cut_set :: "byte list \<Rightarrow> byte \<Rightarrow> bool" where
  "in_cut_set cut_set c = (strchr cut_set c \<noteq> None)"

definition strip_both :: "('a \<Rightarrow> bool) \<Rightarrow> 'a list \<Rightarrow> 'a list" where
  "strip_both P xs = rev (dropWhile P (rev (dropWhile P xs)))"

text \<open>
  Membership in the cut set as the specification words it: \<open>c\<close> is one of the bytes of
  \<^verbatim>\<open>cut_set\<close>, the bytes of the C string in front of its terminator. \<open>cut_or_zero\<close>
  adds the zero byte.
\<close>

definition member_of_cut_set :: "byte list \<Rightarrow> byte \<Rightarrow> bool" where
  "member_of_cut_set cut_set c = (c \<in> set (takeWhile (\<lambda>x. x \<noteq> 0) cut_set))"

definition cut_or_zero :: "byte list \<Rightarrow> byte \<Rightarrow> bool" where
  "cut_or_zero cut_set c = (c = 0 \<or> member_of_cut_set cut_set c)"

subsection \<open>What a caller can read\<close>

text \<open>The payload and a single character behind a handle, as a reader of the memory sees them.\<close>

definition contents :: "heap \<Rightarrow> gb_String \<Rightarrow> fault + byte list" where
  "contents h s = andthen (deref h s) (\<lambda>b. Inr (payload b))"

definition char_at :: "heap \<Rightarrow> gb_String \<Rightarrow> gb_usize \<Rightarrow> fault + byte" where
  "char_at h s i = andthen (deref h s) (\<lambda>b. load_char b (uint i))"

text \<open>
  The two invariants of the data model, read through the library's own accessors: the
  length does not exceed the capacity, and the character at offset \<open>length\<close> is zero.
\<close>

definition string_invariant :: "heap \<Rightarrow> gb_String \<Rightarrow> bool" where
  "string_invariant h s =
     (case gb_string_length h s of
        Inl e \<Rightarrow> False
      | Inr l \<Rightarrow>
          (case gb_string_capacity h s of
             Inl e \<Rightarrow> False
           | Inr c \<Rightarrow> l \<le> c \<and> char_at h s l = Inr 0))"

subsection \<open>Concrete inputs\<close>

definition ascii :: "string \<Rightarrow> byte list" where
  "ascii s = map (\<lambda>c. of_nat (of_char c)) s"

definition bytes_at :: "byte list \<Rightarrow> nat \<Rightarrow> byte" where
  "bytes_at xs i = (if i < length xs then xs ! i else 0)"

text \<open>A block as \<^verbatim>\<open>gb_make_string_length\<close> lays it out, and a heap with one block.\<close>

definition string_block :: "gb_usize \<Rightarrow> gb_usize \<Rightarrow> byte list \<Rightarrow> block" where
  "string_block l c xs =
     \<lparr>bsize = header_size + c + 1, header = \<lparr>len = l, cap = c\<rparr>, chars = bytes_at xs\<rparr>"

definition heap_of :: "nat \<Rightarrow> block \<Rightarrow> heap" where
  "heap_of p b = Map.empty(p \<mapsto> b)"

text \<open>The string \<^verbatim>\<open>"Hello"\<close> at address 0, as \<^verbatim>\<open>gb_make_string("Hello")\<close> builds it.\<close>

definition hello_heap :: heap where
  "hello_heap = heap_of 0 (string_block 5 5 (ascii ''Hello''))"

text \<open>The string \<^verbatim>\<open>"Hi"\<close> at address 0 in a block with room for eight characters.\<close>

definition spare_heap :: heap where
  "spare_heap = heap_of 0 (string_block 2 8 (ascii ''Hi''))"

text \<open>The two strings that are trimmed below, one of them with zero bytes at both ends.\<close>

definition padded_heap :: heap where
  "padded_heap = heap_of 0 (string_block 29 29 (ascii ''Ab.;!...AHello World       ??''))"

definition zeros_heap :: heap where
  "zeros_heap = heap_of 0 (string_block 3 3 [0, 120, 0])"

text \<open>Two allocators: one that is out of memory, one that answers with address \<open>p\<close>.\<close>

definition junk :: block where
  "junk = \<lparr>bsize = 0, header = \<lparr>len = 170, cap = 187\<rparr>, chars = (\<lambda>i. 204)\<rparr>"

definition no_memory :: allocator where
  "no_memory h sz = None"

definition alloc_at :: "nat \<Rightarrow> allocator" where
  "alloc_at p h sz = Some (p, junk)"

section \<open>Basic facts\<close>

lemma andthen_simps [simp]:
  "andthen (Inr x) f = f x"
  "andthen (Inl e) f = Inl e"
  by (simp_all add: andthen_def)

lemma deref_Some [simp]: "h p = Some b \<Longrightarrow> deref h (Some p) = Inr b"
  by (simp add: deref_def)

lemma modify_Some: "h p = Some b \<Longrightarrow>
  modify h (Some p) f = (case f b of Inl e \<Rightarrow> Inl e | Inr b' \<Rightarrow> Inr (h(p \<mapsto> b')))"
  by (simp add: modify_def)

lemma heap_upd_cong: "x = y \<Longrightarrow> (h :: heap)(q \<mapsto> x) = h(q \<mapsto> y)"
  by simp

lemma header_upd_all:
  "(x :: gb_String_Header)\<lparr>len := l, cap := c\<rparr> = \<lparr>len = l, cap = c\<rparr>"
  "(x :: gb_String_Header)\<lparr>cap := c, len := l\<rparr> = \<lparr>len = l, cap = c\<rparr>"
  by (cases x, simp)+

lemma block_ok_bounds:
  assumes "block_ok b"
  shows "unat (len (header b)) \<le> unat (cap (header b))"
    and "unat (cap (header b)) + 17 \<le> unat (bsize b)"
    and "unat (cap (header b)) + 17 < 2 ^ 64"
    and "\<not> bsize b < header_size"
proof -
  show "unat (len (header b)) \<le> unat (cap (header b))"
    using assms by (simp add: block_ok_def word_le_nat_alt)
  show c: "unat (cap (header b)) + 17 \<le> unat (bsize b)"
    using assms by (simp add: block_ok_def header_size_def)
  have "unat (bsize b) < 2 ^ 64" using unsigned_less [of "bsize b"] by simp
  with c show "unat (cap (header b)) + 17 < 2 ^ 64" by linarith
  show "\<not> bsize b < header_size"
    using c by (simp add: word_less_nat_alt header_size_def)
qed

lemma block_inv_bounds:
  assumes "block_inv b"
  shows "unat (len (header b)) \<le> unat (cap (header b))"
    and "unat (len (header b)) + 17 \<le> unat (bsize b)"
    and "unat (len (header b)) + 17 < 2 ^ 64"
    and "\<not> bsize b < header_size"
proof -
  show "unat (len (header b)) \<le> unat (cap (header b))"
    using assms by (simp add: block_inv_def word_le_nat_alt)
  show c: "unat (len (header b)) + 17 \<le> unat (bsize b)"
    using assms by (simp add: block_inv_def header_size_def)
  have "unat (bsize b) < 2 ^ 64" using unsigned_less [of "bsize b"] by simp
  with c show "unat (len (header b)) + 17 < 2 ^ 64" by linarith
  show "\<not> bsize b < header_size"
    using c by (simp add: word_less_nat_alt header_size_def)
qed

lemma block_ok_inv: "block_ok b \<Longrightarrow> block_inv b"
  using block_ok_bounds(1,2) [of b]
  by (simp add: block_inv_def block_ok_def header_size_def)

lemma unat_bound64: "unat (x :: gb_usize) < 18446744073709551616"
  using unsigned_less [of x, where 'a = nat] by simp

lemma wrap_le:
  assumes "unat (n :: gb_usize) + 17 < 2 ^ 64" "\<not> unat n + unat k + 17 < 2 ^ 64"
  shows "16 + (n + k) + 1 \<le> 16 + n + 1"
proof -
  have a: "16 + (n + k) + 1 = n + k + 17" by simp
  have b: "16 + n + 1 = n + 17" by simp
  have "unat (n + k + 17) = (unat n + unat k + 17) mod 2 ^ 64"
    by (simp add: unat_word_ariths mod_simps)
  also have "\<dots> = unat n + unat k + 17 - 2 ^ 64"
    using assms unat_bound64 [of k] unat_bound64 [of n]
    by (simp add: mod_if)
  finally have c: "unat (n + k + 17) = unat n + unat k + 17 - 2 ^ 64" .
  have d: "unat (n + 17) = unat n + 17"
    using assms(1) unat_add_lem [of n 17] by simp
  show ?thesis
    unfolding a b using c d unat_bound64 [of k] by (simp add: word_le_nat_alt)
qed

lemma unat_size_max: "unat (- 1 :: gb_usize) = 18446744073709551615"
  by (simp add: unsigned_minus_1_eq_mask mask_eq_exp_minus_1)

lemma unat_plus: "unat (x :: gb_usize) + unat y < 2 ^ 64 \<Longrightarrow> unat (x + y) = unat x + unat y"
  using unat_add_lem [of x y] by simp

lemma unat_block_size:
  assumes "unat (n :: gb_usize) + 17 < 2 ^ 64"
  shows "unat (header_size + n + 1) = unat n + 17"
proof -
  have "unat (header_size + n) = 16 + unat n"
    using assms by (simp add: unat_plus header_size_def)
  then show ?thesis using assms by (simp add: unat_plus)
qed

lemma gb_string_length_live:
  "h p = Some b \<Longrightarrow> \<not> bsize b < header_size \<Longrightarrow> gb_string_length h (Some p) = Inr (len (header b))"
  by (simp add: gb_string_length_def GB_STRING_HEADER_def)

lemma gb_string_capacity_live:
  "h p = Some b \<Longrightarrow> \<not> bsize b < header_size \<Longrightarrow> gb_string_capacity h (Some p) = Inr (cap (header b))"
  by (simp add: gb_string_capacity_def GB_STRING_HEADER_def)

lemma gb_string_available_space_inv:
  "h p = Some b \<Longrightarrow> block_inv b \<Longrightarrow>
   gb_string_available_space h (Some p) = Inr (cap (header b) - len (header b))"
  by (auto simp add: gb_string_available_space_def GB_STRING_HEADER_def block_inv_bounds block_inv_def)

lemma gb_string_available_space_live:
  "h p = Some b \<Longrightarrow> block_ok b \<Longrightarrow>
   gb_string_available_space h (Some p) = Inr (cap (header b) - len (header b))"
  by (simp add: gb_string_available_space_inv block_ok_inv)

lemma store_char_offset:
  "unat i + 16 < 2 ^ 64 \<Longrightarrow> unat (header_size + i) = unat i + 16"
  using unat_plus [of header_size i] by (simp add: header_size_def)

lemma store_char_live:
  "h p = Some b \<Longrightarrow> unat i + 16 < unat (bsize b) \<Longrightarrow>
   store_char h (Some p) i c = Inr (h(p \<mapsto> b\<lparr>chars := (chars b)(unat i := c)\<rparr>))"
proof -
  assume hp: "h p = Some b" and room: "unat i + 16 < unat (bsize b)"
  have "unat i + 16 < 2 ^ 64"
    using room unat_bound64 [of "bsize b"] by simp
  then have off: "unat (header_size + i) = unat i + 16"
    by (rule store_char_offset)
  have "header_size + i < bsize b" "\<not> header_size + i < header_size"
    using room by (simp_all add: word_less_nat_alt off) (simp add: header_size_def)
  then show ?thesis
    using hp by (simp add: store_char_def modify_Some Let_def)
qed

lemma store_char_full:
  "h p = Some b \<Longrightarrow> unat i + 16 = unat (bsize b) \<Longrightarrow>
   store_char h (Some p) i c = Inl OutOfBounds"
proof -
  assume hp: "h p = Some b" and room: "unat i + 16 = unat (bsize b)"
  have "unat i + 16 < 2 ^ 64"
    using room unat_bound64 [of "bsize b"] by simp
  then have off: "unat (header_size + i) = unat i + 16"
    by (rule store_char_offset)
  have "\<not> header_size + i < bsize b"
    using room by (simp add: word_less_nat_alt off)
  then show ?thesis
    using hp by (simp add: store_char_def modify_Some Let_def)
qed

lemma gb_set_string_length_live:
  "h p = Some b \<Longrightarrow> \<not> bsize b < header_size \<Longrightarrow>
   gb_set_string_length h (Some p) n = Inr (h(p \<mapsto> b\<lparr>header := (header b)\<lparr>len := n\<rparr>\<rparr>))"
  by (simp add: gb_set_string_length_def modify_Some)

lemma gb_set_string_capacity_live:
  "h p = Some b \<Longrightarrow> \<not> bsize b < header_size \<Longrightarrow>
   gb_set_string_capacity h (Some p) n = Inr (h(p \<mapsto> b\<lparr>header := (header b)\<lparr>cap := n\<rparr>\<rparr>))"
  by (simp add: gb_set_string_capacity_def modify_Some)

lemma make_space_fits_inv:
  assumes "h p = Some b" "block_inv b" "add_len \<le> cap (header b) - len (header b)"
  shows "gb_string_make_space_for a h (Some p) add_len = Inr (Some p, h)"
  using assms
  by (simp add: gb_string_make_space_for_def gb_string_length_live block_inv_bounds
      gb_string_available_space_inv Let_def)

lemma make_space_fits:
  assumes "h p = Some b" "block_ok b" "add_len \<le> cap (header b) - len (header b)"
  shows "gb_string_make_space_for a h (Some p) add_len = Inr (Some p, h)"
  by (rule make_space_fits_inv [where h = h, OF assms(1) block_ok_inv [OF assms(2)] assms(3)])


lemma make_space_sizes_inv:
  assumes need: "\<not> add_len \<le> cap (header b) - len (header b)"
    and fits: "unat (len (header b)) + unat add_len + 17 < 2 ^ 64"
  shows "unat (header_size + len (header b) + 1) = unat (len (header b)) + 17"
    and "unat (header_size + (len (header b) + add_len) + 1) = unat (len (header b)) + unat add_len + 17"
    and "\<not> header_size + (len (header b) + add_len) + 1 < header_size + len (header b) + 1"
    and "header_size + len (header b) + 1 \<noteq> header_size + (len (header b) + add_len) + 1"
proof -
  have sum: "unat (len (header b) + add_len) = unat (len (header b)) + unat add_len"
    using fits by (simp add: unat_plus)
  have pos: "0 < unat add_len"
    using need by (cases "add_len = 0") (simp_all add: unat_gt_0)
  show old: "unat (header_size + len (header b) + 1) = unat (len (header b)) + 17"
    using fits by (simp add: unat_block_size)
  show new: "unat (header_size + (len (header b) + add_len) + 1)
      = unat (len (header b)) + unat add_len + 17"
    using fits sum by (simp add: unat_block_size)
  show "\<not> header_size + (len (header b) + add_len) + 1 < header_size + len (header b) + 1"
    by (simp add: word_less_nat_alt old new)
  show "header_size + len (header b) + 1 \<noteq> header_size + (len (header b) + add_len) + 1"
    using pos old new by (metis add_less_cancel_right less_add_same_cancel1 less_irrefl)
qed

lemma make_space_sizes:
  assumes ok: "block_ok b" and need: "\<not> add_len \<le> cap (header b) - len (header b)"
    and fits: "unat (len (header b)) + unat add_len + 17 < 2 ^ 64"
  shows "unat (header_size + len (header b) + 1) = unat (len (header b)) + 17"
    and "unat (header_size + (len (header b) + add_len) + 1) = unat (len (header b)) + unat add_len + 17"
    and "\<not> header_size + (len (header b) + add_len) + 1 < header_size + len (header b) + 1"
    and "header_size + len (header b) + 1 \<noteq> header_size + (len (header b) + add_len) + 1"
  by (rule make_space_sizes_inv [OF need fits])+

lemma make_space_no_memory_inv:
  assumes hp: "h p = Some b" and inv: "block_inv b"
    and need: "\<not> add_len \<le> cap (header b) - len (header b)"
    and fits: "unat (len (header b)) + unat add_len + 17 < 2 ^ 64"
    and fail: "a h (header_size + (len (header b) + add_len) + 1) = None"
  shows "gb_string_make_space_for a h (Some p) add_len = Inr (None, h)"
  using hp inv need fail make_space_sizes_inv(3,4) [OF need fits]
  by (simp add: gb_string_make_space_for_def gb_string_length_live block_inv_bounds
      gb_string_available_space_inv Let_def gb__string_realloc_def GB_ALLOC_def)

lemma make_space_no_memory:
  assumes hp: "h p = Some b" and ok: "block_ok b"
    and need: "\<not> add_len \<le> cap (header b) - len (header b)"
    and fits: "unat (len (header b)) + unat add_len + 17 < 2 ^ 64"
    and fail: "a h (header_size + (len (header b) + add_len) + 1) = None"
  shows "gb_string_make_space_for a h (Some p) add_len = Inr (None, h)"
  by (rule make_space_no_memory_inv [where h = h and a = a, OF hp block_ok_inv [OF ok] need fits fail])

lemma realloc_grows:
  assumes hp: "h p = Some b"
    and old: "unat old_size \<le> unat (bsize b)" "unat header_size \<le> unat old_size"
    and lt: "old_size < new_size"
    and got: "a h new_size = Some (q, g)"
    and fresh: "h q = None"
  shows "gb__string_realloc a h (Some p) old_size new_size =
     Inr (Some q, (h(p := None))(q \<mapsto>
       g\<lparr>bsize := new_size, header := header b,
        chars := (\<lambda>i. if unat header_size + i < unat old_size then chars b i else chars g i)\<rparr>))"
proof -
  have qp: "q \<noteq> p" using hp fresh by auto
  define cb where "cb = g\<lparr>bsize := new_size, header := header b,
        chars := (\<lambda>i. if unat header_size + i < unat old_size then chars b i else chars g i)\<rparr>"
  have alloc: "GB_ALLOC a h new_size = (Some q, h(q \<mapsto> g\<lparr>bsize := new_size\<rparr>))"
    using got by (simp add: GB_ALLOC_def)
  have le: "unat old_size \<le> unat new_size"
    using lt by (simp add: word_less_nat_alt)
  have copy: "memcpy_block (h(q \<mapsto> g\<lparr>bsize := new_size\<rparr>)) (Some q) (Some p) old_size
      = Inr (h(q \<mapsto> cb))"
    using hp qp old le by (simp add: memcpy_block_def modify_Some cb_def cong: if_cong)
  have free: "GB_FREE (h(q \<mapsto> cb)) (Some p) = Inr ((h(q \<mapsto> cb))(p := None))"
    using hp qp by (simp add: GB_FREE_def)
  have swap: "(h(q \<mapsto> cb))(p := None) = (h(p := None))(q \<mapsto> cb)"
    using qp by (simp add: fun_upd_twist)
  have "\<not> new_size < old_size" "old_size \<noteq> new_size"
    using lt by auto
  then show ?thesis
    by (simp add: gb__string_realloc_def alloc copy free swap flip: cb_def)
qed

lemma realloc_no_memory:
  assumes lt: "old_size < new_size" and fail: "a h new_size = None"
  shows "gb__string_realloc a h (Some p) old_size new_size = Inr (None, h)"
proof -
  have "\<not> new_size < old_size" "old_size \<noteq> new_size"
    using lt by auto
  then show ?thesis
    using fail by (simp add: gb__string_realloc_def GB_ALLOC_def)
qed

lemma realloc_keeps:
  assumes le: "new_size \<le> old_size"
  shows "gb__string_realloc a h (Some p) old_size new_size = Inr (Some p, h)"
  using le by (auto simp add: gb__string_realloc_def Let_def)

lemma make_space_grows_inv:
  assumes hp: "h p = Some b" and inv: "block_inv b"
    and need: "\<not> add_len \<le> cap (header b) - len (header b)"
    and fits: "unat (len (header b)) + unat add_len + 17 < 2 ^ 64"
    and got: "a h (header_size + (len (header b) + add_len) + 1) = Some (q, g)"
    and fresh: "h q = None"
  shows "gb_string_make_space_for a h (Some p) add_len =
     Inr (Some q, (h(p := None))(q \<mapsto>
       g\<lparr>bsize := header_size + (len (header b) + add_len) + 1,
        header := (header b)\<lparr>cap := len (header b) + add_len\<rparr>,
        chars := (\<lambda>i. if i \<le> unat (len (header b)) then chars b i else chars g i)\<rparr>))"
proof -
  define old_size where "old_size = header_size + len (header b) + 1"
  define new_size where "new_size = header_size + (len (header b) + add_len) + 1"
  note sz = make_space_sizes_inv [OF need fits, folded old_size_def new_size_def]
  have lt: "old_size < new_size"
    using sz(3,4) by auto
  have le: "unat old_size \<le> unat (bsize b)"
    using block_inv_bounds(2) [OF inv] sz(1) by linarith
  have hs: "unat header_size \<le> unat old_size"
    using sz(1) by (simp add: header_size_def)
  have cond: "\<And>i. (unat header_size + i < unat old_size) = (i \<le> unat (len (header b)))"
    using sz(1) by (auto simp add: header_size_def)
  have big: "\<not> new_size < header_size"
    using sz(2) by (simp add: word_less_nat_alt header_size_def)
  have realloc: "gb__string_realloc a h (Some p) old_size new_size =
     Inr (Some q, (h(p := None))(q \<mapsto>
       g\<lparr>bsize := new_size, header := header b,
        chars := (\<lambda>i. if i \<le> unat (len (header b)) then chars b i else chars g i)\<rparr>))"
    using realloc_grows [where h = h and a = a, OF hp le hs lt got [folded new_size_def] fresh]
    by (simp add: cond)
  show ?thesis
    using hp inv need big
    apply (simp add: gb_string_make_space_for_def gb_string_length_live block_inv_bounds
      gb_string_available_space_inv Let_def realloc gb_set_string_capacity_def modify_Some
      flip: old_size_def new_size_def)
    apply (rule heap_upd_cong, rule block.equality, simp_all)
    done
qed

lemma make_space_grows:
  assumes hp: "h p = Some b" and ok: "block_ok b"
    and need: "\<not> add_len \<le> cap (header b) - len (header b)"
    and fits: "unat (len (header b)) + unat add_len + 17 < 2 ^ 64"
    and got: "a h (header_size + (len (header b) + add_len) + 1) = Some (q, g)"
    and fresh: "h q = None"
  shows "gb_string_make_space_for a h (Some p) add_len =
     Inr (Some q, (h(p := None))(q \<mapsto>
       g\<lparr>bsize := header_size + (len (header b) + add_len) + 1,
        header := (header b)\<lparr>cap := len (header b) + add_len\<rparr>,
        chars := (\<lambda>i. if i \<le> unat (len (header b)) then chars b i else chars g i)\<rparr>))"
  by (rule make_space_grows_inv [where h = h and a = a, OF hp block_ok_inv [OF ok] need fits got fresh])

lemma make_space_wraps_inv:
  assumes hp: "h p = Some b" and inv: "block_inv b"
    and need: "\<not> add_len \<le> cap (header b) - len (header b)"
    and wraps: "\<not> unat (len (header b)) + unat add_len + 17 < 2 ^ 64"
  shows "gb_string_make_space_for a h (Some p) add_len =
     Inr (Some p, h(p \<mapsto> b\<lparr>header := (header b)\<lparr>cap := len (header b) + add_len\<rparr>\<rparr>))"
proof -
  define n where "n = len (header b)"
  have n17: "unat n + 17 < 2 ^ 64"
    using block_inv_bounds(3) [OF inv] by (simp add: n_def)
  have le: "header_size + (n + add_len) + 1 \<le> header_size + n + 1"
    unfolding header_size_def using n17 wraps [folded n_def] by (rule wrap_le)
  show ?thesis
    using hp inv need
    by (simp add: gb_string_make_space_for_def gb_string_length_live block_inv_bounds
      gb_string_available_space_inv Let_def realloc_keeps [OF le] gb_set_string_capacity_def modify_Some
      flip: n_def)
qed

lemma make_space_wraps:
  assumes hp: "h p = Some b" and ok: "block_ok b"
    and need: "\<not> add_len \<le> cap (header b) - len (header b)"
    and wraps: "\<not> unat (len (header b)) + unat add_len + 17 < 2 ^ 64"
  shows "gb_string_make_space_for a h (Some p) add_len =
     Inr (Some p, h(p \<mapsto> b\<lparr>header := (header b)\<lparr>cap := len (header b) + add_len\<rparr>\<rparr>))"
  by (rule make_space_wraps_inv [where h = h and a = a, OF hp block_ok_inv [OF ok] need wraps])


lemma memcpy_in_live:
  "h p = Some b \<Longrightarrow> unat n \<le> length src \<Longrightarrow> unat off + unat n + 16 \<le> unat (bsize b) \<Longrightarrow>
   memcpy_in h (Some p) off src n =
     Inr (h(p \<mapsto> b\<lparr>chars := (\<lambda>i. if unat off \<le> i \<and> i < unat off + unat n
                                    then src ! (i - unat off) else chars b i)\<rparr>))"
  by (simp add: memcpy_in_def modify_Some header_size_def)

lemma memmove_front_live:
  "h p = Some b \<Longrightarrow> 0 \<le> from \<Longrightarrow> nat from + unat n + 16 \<le> unat (bsize b) \<Longrightarrow>
   memmove_front h (Some p) from n =
     Inr (h(p \<mapsto> b\<lparr>chars := (\<lambda>i. if i < unat n then chars b (nat from + i) else chars b i)\<rparr>))"
  by (simp add: memmove_front_def modify_Some header_size_def)

lemma available_le_inv:
  assumes inv: "block_inv b" and fit: "k \<le> cap (header b) - len (header b)"
  shows "unat (len (header b)) + unat k \<le> unat (cap (header b))"
    and "unat (len (header b) + k) = unat (len (header b)) + unat k"
proof -
  have "unat (cap (header b) - len (header b)) = unat (cap (header b)) - unat (len (header b))"
    using inv by (simp add: block_inv_def unat_sub)
  with fit have "unat k \<le> unat (cap (header b)) - unat (len (header b))"
    by (simp add: word_le_nat_alt)
  with block_inv_bounds(1) [OF inv]
  show le: "unat (len (header b)) + unat k \<le> unat (cap (header b))" by linarith
  with unat_bound64 [of "cap (header b)"]
  show "unat (len (header b) + k) = unat (len (header b)) + unat k"
    by (simp add: unat_plus)
qed

lemma available_le:
  assumes ok: "block_ok b" and fit: "k \<le> cap (header b) - len (header b)"
  shows "unat (len (header b)) + unat k \<le> unat (cap (header b))"
    and "unat (len (header b) + k) = unat (len (header b)) + unat k"
proof -
  have "unat (cap (header b) - len (header b)) = unat (cap (header b)) - unat (len (header b))"
    using ok by (simp add: block_ok_def unat_sub)
  with fit have "unat k \<le> unat (cap (header b)) - unat (len (header b))"
    by (simp add: word_le_nat_alt)
  with block_ok_bounds(1) [OF ok]
  show le: "unat (len (header b)) + unat k \<le> unat (cap (header b))" by linarith
  with block_ok_bounds(3) [OF ok]
  show "unat (len (header b) + k) = unat (len (header b)) + unat k"
    by (simp add: unat_plus)
qed

text \<open>The three writes that end an append or an assignment.\<close>

lemma write_tail:
  assumes hq: "h q = Some b"
    and src: "unat k \<le> length src"
    and sum: "unat (off + k) = unat off + unat k"
    and room: "unat off + unat k + 17 \<le> unat (bsize b)"
  shows "andthen (memcpy_in h (Some q) off src k) (\<lambda>h2.
         andthen (store_char h2 (Some q) (off + k) 0) (\<lambda>h3.
         andthen (gb_set_string_length h3 (Some q) (off + k)) (\<lambda>h4.
           Inr (Some q, h4)))) =
     Inr (Some q, h(q \<mapsto> b\<lparr>header := (header b)\<lparr>len := off + k\<rparr>,
       chars := (\<lambda>i. if unat off \<le> i \<and> i < unat off + unat k then src ! (i - unat off)
                     else if i = unat off + unat k then 0 else chars b i)\<rparr>))"
proof -
  have big: "\<not> bsize b < header_size"
    using room by (simp add: word_less_nat_alt header_size_def)
  show ?thesis
    using hq src room big
    apply (simp add: memcpy_in_live store_char_live gb_set_string_length_live sum)
    apply (rule heap_upd_cong, rule block.equality, simp_all)
    apply (rule ext, simp)
    done
qed

lemma write_front:
  assumes hq: "h q = Some b"
    and src: "unat k \<le> length src"
    and room: "unat k + 17 \<le> unat (bsize b)"
  shows "andthen (memcpy_in h (Some q) 0 src k) (\<lambda>h2.
         andthen (store_char h2 (Some q) k 0) (\<lambda>h3.
         andthen (gb_set_string_length h3 (Some q) k) (\<lambda>h4.
           Inr (Some q, h4)))) =
     Inr (Some q, h(q \<mapsto> b\<lparr>header := (header b)\<lparr>len := k\<rparr>,
       chars := (\<lambda>i. if i < unat k then src ! i
                     else if i = unat k then 0 else chars b i)\<rparr>))"
  using write_tail [where h = h and off = 0, OF hq src] room
  by (simp cong: if_cong)

lemma clear_inv:
  assumes hp: "h p = Some b" and inv: "block_inv b"
  shows "gb_clear_string h (Some p) =
     Inr (h(p \<mapsto> b\<lparr>header := (header b)\<lparr>len := 0\<rparr>, chars := (chars b)(0 := 0)\<rparr>))"
  using hp block_inv_bounds(2,4) [OF inv]
  by (simp add: gb_clear_string_def gb_set_string_length_live store_char_live)


lemma append_fits:
  assumes hp: "h p = Some b" and ok: "block_ok b"
    and fit: "k \<le> cap (header b) - len (header b)"
    and src: "unat k \<le> length other"
  shows "gb_append_string_length a h (Some p) other k =
     Inr (Some p, h(p \<mapsto> b\<lparr>header := (header b)\<lparr>len := len (header b) + k\<rparr>,
       chars := (\<lambda>i. if unat (len (header b)) \<le> i \<and> i < unat (len (header b)) + unat k
                     then other ! (i - unat (len (header b)))
                     else if i = unat (len (header b)) + unat k then 0 else chars b i)\<rparr>))"
proof -
  note av = available_le [OF ok fit]
  have room: "unat (len (header b)) + unat k + 17 \<le> unat (bsize b)"
    using av(1) block_ok_bounds(2) [OF ok] by linarith
  show ?thesis
    using hp ok
    by (simp add: gb_append_string_length_def gb_string_length_live block_ok_bounds
        make_space_fits [where h = h, OF hp ok fit] write_tail [where h = h, OF hp src av(2) room])
qed

lemma append_no_memory:
  assumes hp: "h p = Some b" and ok: "block_ok b"
    and need: "\<not> k \<le> cap (header b) - len (header b)"
    and fits: "unat (len (header b)) + unat k + 17 < 2 ^ 64"
    and fail: "a h (header_size + (len (header b) + k) + 1) = None"
  shows "gb_append_string_length a h (Some p) other k = Inr (None, h)"
  using hp ok
  by (simp add: gb_append_string_length_def gb_string_length_live block_ok_bounds
      make_space_no_memory [where h = h and a = a, OF hp ok need fits fail])

lemma append_grows:
  assumes hp: "h p = Some b" and ok: "block_ok b"
    and need: "\<not> k \<le> cap (header b) - len (header b)"
    and fits: "unat (len (header b)) + unat k + 17 < 2 ^ 64"
    and got: "a h (header_size + (len (header b) + k) + 1) = Some (q, g)"
    and fresh: "h q = None"
    and src: "unat k \<le> length other"
  shows "gb_append_string_length a h (Some p) other k =
     Inr (Some q, (h(p := None))(q \<mapsto>
       g\<lparr>bsize := header_size + (len (header b) + k) + 1,
         header := \<lparr>len = len (header b) + k, cap = len (header b) + k\<rparr>,
         chars := (\<lambda>i. if i < unat (len (header b)) then chars b i
                       else if i < unat (len (header b)) + unat k
                         then other ! (i - unat (len (header b)))
                       else if i = unat (len (header b)) + unat k then 0 else chars g i)\<rparr>))"
proof -
  define nb where "nb = g\<lparr>bsize := header_size + (len (header b) + k) + 1,
        header := (header b)\<lparr>cap := len (header b) + k\<rparr>,
        chars := (\<lambda>i. if i \<le> unat (len (header b)) then chars b i else chars g i)\<rparr>"
  define h1 where "h1 = (h(p := None))(q \<mapsto> nb)"
  have grow: "gb_string_make_space_for a h (Some p) k = Inr (Some q, h1)"
    unfolding h1_def nb_def by (rule make_space_grows [where h = h and a = a, OF hp ok need fits got fresh])
  have hq: "h1 q = Some nb" by (simp add: h1_def)
  note sz = make_space_sizes [OF ok need fits]
  have sum: "unat (len (header b) + k) = unat (len (header b)) + unat k"
    using fits by (simp add: unat_plus)
  have room: "unat (len (header b)) + unat k + 17 \<le> unat (bsize nb)"
    using sz(2) by (simp add: nb_def)
  show ?thesis
    using hp ok
    apply (simp add: gb_append_string_length_def gb_string_length_live block_ok_bounds
        grow write_tail [where h = h1, OF hq src sum room])
    apply (simp add: h1_def)
    apply (rule heap_upd_cong, rule block.equality, simp_all add: nb_def header_upd_all)
    apply (rule ext, auto simp add: nb_def)
    done
qed


lemma strlen_nat_le: "strlen_nat s \<le> length s"
  by (induction s) auto

lemma strlen_nat_takeWhile: "strlen_nat s = length (takeWhile (\<lambda>c. c \<noteq> 0) s)"
  by (induction s) auto

lemma take_strlen_nat: "take (strlen_nat s) s = takeWhile (\<lambda>c. c \<noteq> 0) s"
  by (induction s) auto

lemma unat_strlen_le: "unat (strlen s) \<le> length s"
proof -
  have "unat (strlen s) \<le> strlen_nat s"
    by (simp add: strlen_def unat_of_nat)
  then show ?thesis using strlen_nat_le [of s] by linarith
qed

lemma unat_strlen: "strlen_nat s < 2 ^ 64 \<Longrightarrow> unat (strlen s) = strlen_nat s"
  by (simp add: strlen_def unat_of_nat)

lemma set_string_fits:
  assumes hp: "h p = Some b" and ok: "block_ok b"
    and fit: "\<not> cap (header b) < strlen cstr"
  shows "gb_set_string a h (Some p) cstr =
     Inr (Some p, h(p \<mapsto> b\<lparr>header := (header b)\<lparr>len := strlen cstr\<rparr>,
       chars := (\<lambda>i. if i < unat (strlen cstr) then cstr ! i
                     else if i = unat (strlen cstr) then 0 else chars b i)\<rparr>))"
proof -
  have room: "unat (strlen cstr) + 17 \<le> unat (bsize b)"
    using fit block_ok_bounds(2) [OF ok] by (simp add: word_less_nat_alt)
  show ?thesis
    using hp ok fit
    by (simp add: gb_set_string_def gb_string_capacity_live block_ok_bounds Let_def
        write_front [where h = h, OF hp unat_strlen_le room])
qed

lemma set_string_need:
  assumes ok: "block_ok b" and need: "cap (header b) < strlen cstr"
    and fits: "unat (strlen cstr) + 17 < 2 ^ 64"
  shows "\<not> strlen cstr - len (header b) \<le> cap (header b) - len (header b)"
    and "unat (len (header b)) + unat (strlen cstr - len (header b)) + 17 < 2 ^ 64"
    and "len (header b) + (strlen cstr - len (header b)) = strlen cstr"
proof -
  have l: "unat (len (header b)) \<le> unat (cap (header b))"
    by (rule block_ok_bounds(1) [OF ok])
  have c: "unat (cap (header b)) < unat (strlen cstr)"
    using need by (simp add: word_less_nat_alt)
  have d1: "unat (strlen cstr - len (header b)) = unat (strlen cstr) - unat (len (header b))"
    using l c by (simp add: unat_sub word_le_nat_alt)
  have d2: "unat (cap (header b) - len (header b)) = unat (cap (header b)) - unat (len (header b))"
    using l by (simp add: unat_sub word_le_nat_alt)
  show "\<not> strlen cstr - len (header b) \<le> cap (header b) - len (header b)"
    using l c by (simp add: word_le_nat_alt d1 d2)
  show "unat (len (header b)) + unat (strlen cstr - len (header b)) + 17 < 2 ^ 64"
    using l c fits by (simp add: d1)
  show "len (header b) + (strlen cstr - len (header b)) = strlen cstr"
    by simp
qed

lemma set_string_no_memory:
  assumes hp: "h p = Some b" and ok: "block_ok b"
    and need: "cap (header b) < strlen cstr"
    and fits: "unat (strlen cstr) + 17 < 2 ^ 64"
    and fail: "a h (header_size + strlen cstr + 1) = None"
  shows "gb_set_string a h (Some p) cstr = Inr (None, h)"
proof -
  note n = set_string_need [OF ok need fits]
  have fail': "a h (header_size + (len (header b) + (strlen cstr - len (header b))) + 1) = None"
    using fail by (simp only: n(3))
  show ?thesis
    using hp ok need
    by (simp add: gb_set_string_def gb_string_capacity_live gb_string_length_live block_ok_bounds
        Let_def make_space_no_memory [where h = h and a = a, OF hp ok n(1,2) fail'])
qed

lemma set_string_grows:
  assumes hp: "h p = Some b" and ok: "block_ok b"
    and need: "cap (header b) < strlen cstr"
    and fits: "unat (strlen cstr) + 17 < 2 ^ 64"
    and got: "a h (header_size + strlen cstr + 1) = Some (q, g)"
    and fresh: "h q = None"
  shows "gb_set_string a h (Some p) cstr =
     Inr (Some q, (h(p := None))(q \<mapsto>
       g\<lparr>bsize := header_size + strlen cstr + 1,
         header := \<lparr>len = strlen cstr, cap = strlen cstr\<rparr>,
         chars := (\<lambda>i. if i < unat (strlen cstr) then cstr ! i
                       else if i = unat (strlen cstr) then 0 else chars g i)\<rparr>))"
proof -
  note n = set_string_need [OF ok need fits]
  have got': "a h (header_size + (len (header b) + (strlen cstr - len (header b))) + 1) = Some (q, g)"
    using got by (simp only: n(3))
  define nb where "nb = g\<lparr>bsize := header_size + strlen cstr + 1,
        header := (header b)\<lparr>cap := strlen cstr\<rparr>,
        chars := (\<lambda>i. if i \<le> unat (len (header b)) then chars b i else chars g i)\<rparr>"
  define h1 where "h1 = (h(p := None))(q \<mapsto> nb)"
  have grow: "gb_string_make_space_for a h (Some p) (strlen cstr - len (header b)) = Inr (Some q, h1)"
    using make_space_grows [where h = h and a = a, OF hp ok n(1,2) got' fresh]
    by (simp only: n(3) h1_def nb_def)
  have hq: "h1 q = Some nb" by (simp add: h1_def)
  have room: "unat (strlen cstr) + 17 \<le> unat (bsize nb)"
    using fits by (simp add: nb_def unat_block_size)
  show ?thesis
    using hp ok need
    apply (simp add: gb_set_string_def gb_string_capacity_live gb_string_length_live
        block_ok_bounds grow Let_def write_front [where h = h1, OF hq unat_strlen_le room])
    apply (simp add: h1_def)
    apply (rule heap_upd_cong, rule block.equality, simp_all add: nb_def header_upd_all)
    apply (rule ext, insert block_ok_bounds(1) [OF ok], auto simp add: nb_def word_less_nat_alt)
    done
qed

lemma make_no_memory:
  assumes fail: "a h (header_size + n + 1) = None"
  shows "gb_make_string_length a h (Some src) n = Inr (None, h)"
    and "gb_make_string_length a h None n = Inl NullPointer"
  using fail by (simp_all add: gb_make_string_length_def GB_ALLOC_def memset_zero_def modify_def)

lemma make_copies:
  assumes got: "a h (header_size + n + 1) = Some (q, g)"
    and fits: "unat n + 17 < 2 ^ 64"
    and src: "unat n \<le> length src"
  shows "gb_make_string_length a h (Some src) n =
     Inr (Some q, h(q \<mapsto> g\<lparr>bsize := header_size + n + 1,
       header := \<lparr>len = n, cap = n\<rparr>,
       chars := (\<lambda>i. if i < unat n then src ! i else if i = unat n then 0 else chars g i)\<rparr>))"
proof -
  have sz: "unat (header_size + n + 1) = unat n + 17"
    using fits by (rule unat_block_size)
  then have big: "\<not> header_size + n + 1 < header_size"
    by (simp add: word_less_nat_alt header_size_def)
  show ?thesis
  proof (cases "n = 0")
    case True
    then show ?thesis
      using got sz big
      apply (simp add: gb_make_string_length_def GB_ALLOC_def gb_set_string_length_live
        gb_set_string_capacity_live store_char_live)
      apply (rule heap_upd_cong, rule block.equality, simp_all add: header_upd_all)
      apply (rule ext, simp)
      done
  next
    case False
    then show ?thesis
      using got src sz big
      apply (simp add: gb_make_string_length_def GB_ALLOC_def gb_set_string_length_live
        gb_set_string_capacity_live memcpy_in_live store_char_live)
      apply (rule heap_upd_cong, rule block.equality, simp_all add: header_upd_all)
      apply (rule ext, simp)
      done
  qed
qed

lemma make_zeroes:
  assumes got: "a h (header_size + n + 1) = Some (q, g)"
    and fits: "unat n + 17 < 2 ^ 64"
  shows "gb_make_string_length a h None n =
     Inr (Some q, h(q \<mapsto> g\<lparr>bsize := header_size + n + 1,
       header := \<lparr>len = n, cap = n\<rparr>,
       chars := (\<lambda>i. if i \<le> unat n then 0 else chars g i)\<rparr>))"
proof -
  have sz: "unat (header_size + n + 1) = unat n + 17"
    using fits by (rule unat_block_size)
  then have big: "\<not> header_size + n + 1 < header_size"
    by (simp add: word_less_nat_alt header_size_def)
  show ?thesis
    using got sz big
    apply (simp add: gb_make_string_length_def GB_ALLOC_def gb_set_string_length_live
        gb_set_string_capacity_live memset_zero_def modify_Some store_char_live)
    apply (simp add: header_size_def)
    apply (rule heap_upd_cong, rule block.equality, simp_all add: header_upd_all)
    apply (rule ext, auto)
    done
qed


lemma load_char_live:
  "0 \<le> j \<Longrightarrow> nat j + 16 < unat (bsize b) \<Longrightarrow> load_char b j = Inr (chars b (nat j))"
  by (simp add: load_char_def header_size_def)

lemma load_char_nat:
  "i + 16 < unat (bsize b) \<Longrightarrow> load_char b (int i) = Inr (chars b i)"
  by (simp add: load_char_def header_size_def)

lemma trim_start_step:
  "i \<le> e \<Longrightarrow> load_char b i = Inr c \<Longrightarrow>
   trim_start b cut_set i e =
     (if in_cut_set cut_set c then trim_start b cut_set (i + 1) e else Inr i)"
  by (subst trim_start.simps) (simp add: in_cut_set_def)

lemma trim_end_step:
  "s < e \<Longrightarrow> load_char b e = Inr c \<Longrightarrow>
   trim_end b cut_set s e =
     (if in_cut_set cut_set c then trim_end b cut_set s (e - 1) else Inr e)"
  by (subst trim_end.simps) (simp add: in_cut_set_def)

lemma trim_start_scan:
  assumes room: "n + 16 \<le> unat (bsize b)"
  shows "i \<le> n \<Longrightarrow>
    trim_start b cut_set (int i) (int n - 1) =
      Inr (int (i + length (takeWhile (in_cut_set cut_set) (drop i (map (chars b) [0..<n])))))"
proof (induction "n - i" arbitrary: i)
  case 0
  then have "i = n" by simp
  then show ?case by (simp add: trim_start.simps)
next
  case (Suc k)
  then have lt: "i < n" by linarith
  have "i + 16 < unat (bsize b)"
    using lt room by linarith
  then have ld: "load_char b (int i) = Inr (chars b i)"
    by (rule load_char_nat)
  have dr: "drop i (map (chars b) [0..<n]) = chars b i # drop (Suc i) (map (chars b) [0..<n])"
    using lt by (simp add: Cons_nth_drop_Suc [symmetric])
  have "trim_start b cut_set (int (Suc i)) (int n - 1) =
      Inr (int (Suc i + length (takeWhile (in_cut_set cut_set) (drop (Suc i) (map (chars b) [0..<n])))))"
    using Suc lt by (intro Suc.hyps(1)) simp_all
  moreover have "int (Suc i) = int i + 1" by simp
  ultimately have ih: "trim_start b cut_set (int i + 1) (int n - 1) =
      Inr (int (Suc i + length (takeWhile (in_cut_set cut_set) (drop (Suc i) (map (chars b) [0..<n])))))"
    by (simp only:)
  have "trim_start b cut_set (int i) (int n - 1) =
      (if in_cut_set cut_set (chars b i) then trim_start b cut_set (int i + 1) (int n - 1)
       else Inr (int i))"
    using lt by (intro trim_start_step ld) simp
  then show ?case
    by (simp only: ih dr) simp
qed

lemma trim_end_scan:
  assumes room: "n + 16 \<le> unat (bsize b)"
  shows "s + k < n \<Longrightarrow>
    trim_end b cut_set (int s) (int (s + k)) =
      Inr (int (s + length (dropWhile (in_cut_set cut_set)
        (rev (take k (drop (Suc s) (map (chars b) [0..<n])))))))"
proof (induction k)
  case 0
  then show ?case by (simp add: trim_end.simps)
next
  case (Suc k)
  define ys where "ys = drop (Suc s) (map (chars b) [0..<n])"
  have len: "length ys = n - Suc s" by (simp add: ys_def)
  have klt: "k < length ys" using Suc.prems len by linarith
  have "s + Suc k + 16 < unat (bsize b)"
    using Suc.prems room by linarith
  then have ld: "load_char b (int (s + Suc k)) = Inr (chars b (s + Suc k))"
    by (rule load_char_nat)
  have nth: "ys ! k = chars b (s + Suc k)"
    using Suc.prems by (simp add: ys_def)
  have tk: "take (Suc k) ys = take k ys @ [chars b (s + Suc k)]"
    using klt nth by (simp add: take_Suc_conv_app_nth)
  have lk: "length (take k ys) = k" using klt by simp
  have "trim_end b cut_set (int s) (int (s + k)) =
      Inr (int (s + length (dropWhile (in_cut_set cut_set) (rev (take k ys)))))"
    using Suc unfolding ys_def by simp
  moreover have "int (s + k) = int (s + Suc k) - 1" by simp
  ultimately have ih: "trim_end b cut_set (int s) (int (s + Suc k) - 1) =
      Inr (int (s + length (dropWhile (in_cut_set cut_set) (rev (take k ys)))))"
    by (simp only:)
  have "trim_end b cut_set (int s) (int (s + Suc k)) =
      (if in_cut_set cut_set (chars b (s + Suc k))
       then trim_end b cut_set (int s) (int (s + Suc k) - 1)
       else Inr (int (s + Suc k)))"
    by (intro trim_end_step ld) simp
  then show ?case
    unfolding ys_def [symmetric] using klt by (simp only: ih tk) (simp add: min_absorb2)
qed

lemma trim_end_passed:
  "trim_end b cut_set (int n) (int n - 1) = Inr (int n - 1)"
  by (simp add: trim_end.simps)


lemma strip_suffix_take:
  "rev (dropWhile P (rev ys)) = take (length (dropWhile P (rev ys))) ys"
proof -
  have "rev ys = takeWhile P (rev ys) @ dropWhile P (rev ys)" by simp
  then have "ys = rev (dropWhile P (rev ys)) @ rev (takeWhile P (rev ys))"
    by (metis rev_append rev_rev_ident)
  then have "take (length (rev (dropWhile P (rev ys)))) ys = rev (dropWhile P (rev ys))"
    by (metis append_eq_conv_conj)
  then show ?thesis by simp
qed

lemma strip_both_take:
  "strip_both P xs =
     take (length (strip_both P xs)) (drop (length (takeWhile P xs)) xs)"
  using strip_suffix_take [of P "dropWhile P xs"]
  by (simp add: strip_both_def dropWhile_eq_drop)

lemma strip_both_all:
  "length (takeWhile P xs) = length xs \<Longrightarrow> strip_both P xs = []"
  by (simp add: strip_both_def dropWhile_eq_drop)

lemma strip_both_some:
  assumes "length (takeWhile P xs) < length xs"
  shows "length (strip_both P xs) =
     Suc (length (dropWhile P (rev (drop (Suc (length (takeWhile P xs))) xs))))"
proof -
  define s where "s = length (takeWhile P xs)"
  have z: "\<not> P (xs ! s)"
    using assms unfolding s_def by (rule nth_length_takeWhile)
  have d: "drop s xs = xs ! s # drop (Suc s) xs"
    using assms by (simp add: s_def Cons_nth_drop_Suc)
  have "dropWhile P (rev (drop s xs)) = dropWhile P (rev (drop (Suc s) xs)) @ [xs ! s]"
    using z by (simp add: d dropWhile_append3)
  then show ?thesis
    by (simp add: strip_both_def dropWhile_eq_drop flip: s_def)
qed

lemma length_strip_both_le:
  "length (takeWhile P xs) + length (strip_both P xs) \<le> length xs"
proof -
  have "length (strip_both P xs) \<le> length (dropWhile P xs)"
    using length_dropWhile_le [of P "rev (dropWhile P xs)"]
    by (simp only: strip_both_def length_rev)
  moreover have "length (takeWhile P xs) + length (dropWhile P xs) = length xs"
    by (metis length_append takeWhile_dropWhile_id)
  ultimately show ?thesis by linarith
qed

lemma trim_inv:
  assumes hp: "h p = Some b" and inv: "block_inv b"
  shows "gb_trim_string h (Some p) cut_set =
     Inr (Some p, h(p \<mapsto> b\<lparr>
       header := (header b)\<lparr>len := of_nat (length (strip_both (in_cut_set cut_set) (payload b)))\<rparr>,
       chars := (\<lambda>i. if i < length (strip_both (in_cut_set cut_set) (payload b))
                     then chars b (length (takeWhile (in_cut_set cut_set) (payload b)) + i)
                     else if i = length (strip_both (in_cut_set cut_set) (payload b)) then 0
                     else chars b i)\<rparr>))"
proof -
  define n where "n = unat (len (header b))"
  define xs where "xs = map (chars b) [0..<n]"
  define s where "s = length (takeWhile (in_cut_set cut_set) xs)"
  define m where "m = length (strip_both (in_cut_set cut_set) xs)"
  have pl: "payload b = xs" by (simp add: payload_def xs_def n_def)
  have lx: "length xs = n" by (simp add: xs_def)
  have room: "n + 17 \<le> unat (bsize b)"
    using block_inv_bounds(2) [OF inv] by (simp add: n_def)
  then have room': "n + 16 \<le> unat (bsize b)" by simp
  have sn: "s \<le> n"
    using length_takeWhile_le [of "in_cut_set cut_set" xs] by (simp add: s_def lx)
  have smn: "s + m \<le> n"
    using length_strip_both_le [of "in_cut_set cut_set" xs] by (simp add: s_def m_def lx)
  have n64: "n < 2 ^ 64" using unat_bound64 [of "len (header b)"] by (simp add: n_def)
  have um: "unat (of_nat m :: gb_usize) = m"
    using smn n64 by (simp add: unat_of_nat)
  have start: "trim_start b cut_set 0 (int n - 1) = Inr (int s)"
    using trim_start_scan [OF room', of 0 cut_set] by (simp add: s_def xs_def)
  obtain e where stop: "trim_end b cut_set (int s) (int n - 1) = Inr e"
    and n1: "(if int s > e then 0 else word_of_int ((e - int s) + 1)) = (of_nat m :: gb_usize)"
  proof (cases "s < n")
    case False
    then have sn': "s = n" using sn by simp
    have "m = 0" using sn' by (simp add: m_def strip_both_all s_def lx)
    then show ?thesis
      using that [of "int n - 1"] sn' trim_end_passed [of b cut_set n] by simp
  next
    case True
    define k where "k = n - 1 - s"
    have sk: "s + k < n" and nk: "int n - 1 = int (s + k)"
      using True by (simp_all add: k_def)
    have whole: "take k (drop (Suc s) xs) = drop (Suc s) xs"
      by (simp add: k_def lx)
    define m' where "m' = length (dropWhile (in_cut_set cut_set) (rev (drop (Suc s) xs)))"
    have m: "m = Suc m'"
      using True strip_both_some [of "in_cut_set cut_set" xs]
      by (simp add: m_def m'_def s_def lx)
    have "trim_end b cut_set (int s) (int (s + k)) = Inr (int (s + m'))"
      using trim_end_scan [OF room' sk, of cut_set]
      by (simp add: whole m'_def flip: xs_def)
    then show ?thesis
      using that [of "int (s + m')"] by (simp add: nk m)
  qed
  define b1 where "b1 = b\<lparr>chars := (\<lambda>i. if i < m then chars b (s + i) else chars b i)\<rparr>"
  define b2 where "b2 = b1\<lparr>chars := (chars b1)(unat (of_nat m :: gb_usize) := 0)\<rparr>"
  define b3 where "b3 = b2\<lparr>header := (header b2)\<lparr>len := of_nat m\<rparr>\<rparr>"
  have mv: "(if int s \<noteq> 0 then memmove_front h (Some p) (int s) (of_nat m) else Inr h) =
      Inr (h(p \<mapsto> b1))"
  proof (cases "s = 0")
    case True
    have "(\<lambda>i. if i < m then chars b (s + i) else chars b i) = chars b"
      using True by (intro ext) simp
    then have "b1 = b"
      by (simp add: b1_def)
    then show ?thesis using True hp by (simp add: fun_upd_idem)
  next
    case False
    then show ?thesis
      using hp room smn by (simp add: memmove_front_live um b1_def cong: if_cong)
  qed
  have st: "store_char (h(p \<mapsto> b1)) (Some p) (of_nat m) 0 = Inr (h(p \<mapsto> b2))"
    using room smn by (simp add: store_char_live [where b = b1] um b1_def b2_def)
  have sl: "gb_set_string_length (h(p \<mapsto> b2)) (Some p) (of_nat m) = Inr (h(p \<mapsto> b3))"
    using block_inv_bounds(4) [OF inv]
    by (simp add: gb_set_string_length_live [where b = b2] b1_def b2_def b3_def)
  have len: "gb_string_length h (Some p) = Inr (len (header b))"
    using hp block_inv_bounds(4) [OF inv] by (rule gb_string_length_live)
  have dr: "deref h (Some p) = Inr b"
    using hp by (rule deref_Some)
  have run: "gb_trim_string h (Some p) cut_set = Inr (Some p, h(p \<mapsto> b3))"
    unfolding gb_trim_string_def len dr andthen_simps Let_def n_def [symmetric]
      start stop n1 mv st sl ..
  have "b3 = b\<lparr>header := (header b)\<lparr>len := of_nat m\<rparr>,
       chars := (\<lambda>i. if i < m then chars b (s + i) else if i = m then 0 else chars b i)\<rparr>"
    by (rule block.equality) (auto simp add: b3_def b2_def b1_def um)
  then show ?thesis
    unfolding pl s_def [symmetric] m_def [symmetric] using run by simp
qed

lemma trim_live:
  assumes hp: "h p = Some b" and ok: "block_ok b"
  shows "gb_trim_string h (Some p) cut_set =
     Inr (Some p, h(p \<mapsto> b\<lparr>
       header := (header b)\<lparr>len := of_nat (length (strip_both (in_cut_set cut_set) (payload b)))\<rparr>,
       chars := (\<lambda>i. if i < length (strip_both (in_cut_set cut_set) (payload b))
                     then chars b (length (takeWhile (in_cut_set cut_set) (payload b)) + i)
                     else if i = length (strip_both (in_cut_set cut_set) (payload b)) then 0
                     else chars b i)\<rparr>))"
  by (rule trim_inv [where h = h, OF hp block_ok_inv [OF ok]])

lemma gb_string_ok_iff:
  "gb_string_ok h s \<longleftrightarrow> (\<exists>p b. s = Some p \<and> h p = Some b \<and> block_ok b)"
  by (auto simp add: gb_string_ok_def deref_def split: option.splits)

lemma gb_string_ok_live: "h p = Some b \<Longrightarrow> gb_string_ok h (Some p) = block_ok b"
  by (simp add: gb_string_ok_def)

lemma hello_heap_ok: "gb_string_ok hello_heap (Some 0)"
  by (simp add: gb_string_ok_def hello_heap_def heap_of_def block_ok_def string_block_def
      bytes_at_def ascii_def header_size_def)

section \<open>What each operation leaves behind\<close>

lemma map_upt_eq:
  "length xs = n \<Longrightarrow> (\<And>i. i < n \<Longrightarrow> f i = xs ! i) \<Longrightarrow> map f [0..<n] = xs"
  by (auto intro!: nth_equalityI)

lemma observe:
  assumes hq: "h q = Some b" and ok: "block_ok b"
  shows "gb_string_ok h (Some q)"
    and "gb_string_length h (Some q) = Inr (len (header b))"
    and "gb_string_capacity h (Some q) = Inr (cap (header b))"
    and "gb_string_available_space h (Some q) = Inr (cap (header b) - len (header b))"
    and "contents h (Some q) = Inr (payload b)"
    and "char_at h (Some q) (len (header b)) = Inr 0"
proof -
  have "unat (len (header b)) + 16 < unat (bsize b)"
    using block_ok_bounds(1,2) [OF ok] by linarith
  then show "char_at h (Some q) (len (header b)) = Inr 0"
    using hq ok by (simp add: char_at_def load_char_live block_ok_def)
qed (use hq ok in \<open>simp_all add: gb_string_ok_live gb_string_length_live gb_string_capacity_live
      gb_string_available_space_live block_ok_bounds contents_def\<close>)

lemma observed:
  assumes "gb_string_ok h str"
  obtains p b where "str = Some p" "h p = Some b" "block_ok b"
    "gb_string_length h str = Inr (len (header b))"
    "gb_string_capacity h str = Inr (cap (header b))"
    "gb_string_available_space h str = Inr (cap (header b) - len (header b))"
    "contents h str = Inr (payload b)"
proof -
  from assms obtain p b where s: "str = Some p" and hp: "h p = Some b" and ok: "block_ok b"
    by (auto simp add: gb_string_ok_iff)
  show ?thesis
    using that [OF s hp ok] observe(2-5) [where h = h, OF hp ok] by (simp add: s)
qed

lemma make_space_grows_post:
  assumes hp: "h p = Some b" and ok: "block_ok b"
    and need: "\<not> add_len \<le> cap (header b) - len (header b)"
    and fits: "unat (len (header b)) + unat add_len + 17 < 2 ^ 64"
    and got: "a h (header_size + (len (header b) + add_len) + 1) = Some (q, g)"
    and fresh: "h q = None"
  shows "\<exists>b'. gb_string_make_space_for a h (Some p) add_len = Inr (Some q, (h(p := None))(q \<mapsto> b')) \<and>
     block_ok b' \<and> len (header b') = len (header b) \<and> cap (header b') = len (header b) + add_len \<and>
     unat (len (header b) + add_len) = unat (len (header b)) + unat add_len \<and>
     cap (header b) < cap (header b') \<and>
     payload b' = payload b \<and> bsize b' = header_size + (len (header b) + add_len) + 1"
proof -
  define b' where "b' = g\<lparr>bsize := header_size + (len (header b) + add_len) + 1,
        header := (header b)\<lparr>cap := len (header b) + add_len\<rparr>,
        chars := (\<lambda>i. if i \<le> unat (len (header b)) then chars b i else chars g i)\<rparr>"
  note sz = make_space_sizes [OF ok need fits]
  have sum: "unat (len (header b) + add_len) = unat (len (header b)) + unat add_len"
    using fits by (simp add: unat_plus)
  have run: "gb_string_make_space_for a h (Some p) add_len = Inr (Some q, (h(p := None))(q \<mapsto> b'))"
    unfolding b'_def by (rule make_space_grows [where h = h and a = a, OF hp ok need fits got fresh])
  have ok': "block_ok b'"
    using ok sz(2) sum by (simp add: block_ok_def b'_def header_size_def word_le_nat_alt)
  have "unat (cap (header b) - len (header b)) = unat (cap (header b)) - unat (len (header b))"
    using ok by (simp add: block_ok_def unat_sub)
  with need block_ok_bounds(1) [OF ok] have grow: "cap (header b) < cap (header b')"
    by (simp add: b'_def word_less_nat_alt word_le_nat_alt sum)
  have pl: "payload b' = payload b"
    by (simp add: payload_def b'_def)
  show ?thesis
    using run ok' grow pl sum by (intro exI [of _ b']) (simp add: b'_def)
qed



lemma append_grows_post:
  assumes hp: "h p = Some b" and ok: "block_ok b"
    and need: "\<not> k \<le> cap (header b) - len (header b)"
    and fits: "unat (len (header b)) + unat k + 17 < 2 ^ 64"
    and got: "a h (header_size + (len (header b) + k) + 1) = Some (q, g)"
    and fresh: "h q = None"
    and src: "unat k \<le> length other"
  shows "\<exists>b'. gb_append_string_length a h (Some p) other k =
       Inr (Some q, (h(p := None))(q \<mapsto> b')) \<and>
     block_ok b' \<and> len (header b') = len (header b) + k \<and> cap (header b') = len (header b) + k \<and>
     cap (header b) < cap (header b') \<and>
     bsize b' = header_size + (len (header b) + k) + 1 \<and>
     payload b' = payload b @ take (unat k) other"
proof -
  define n where "n = unat (len (header b))"
  define b' where "b' = g\<lparr>bsize := header_size + (len (header b) + k) + 1,
         header := \<lparr>len = len (header b) + k, cap = len (header b) + k\<rparr>,
         chars := (\<lambda>i. if i < n then chars b i
                       else if i < n + unat k then other ! (i - n)
                       else if i = n + unat k then 0 else chars g i)\<rparr>"
  note sz = make_space_sizes [OF ok need fits]
  have sum: "unat (len (header b) + k) = n + unat k"
    using fits by (simp add: unat_plus n_def)
  have run: "gb_append_string_length a h (Some p) other k = Inr (Some q, (h(p := None))(q \<mapsto> b'))"
    unfolding b'_def n_def
    by (rule append_grows [where h = h and a = a, OF hp ok need fits got fresh src])
  have ok': "block_ok b'"
    using sz(2) sum by (simp add: block_ok_def b'_def header_size_def flip: n_def)
  have "unat (cap (header b) - len (header b)) = unat (cap (header b)) - n"
    using ok by (simp add: block_ok_def unat_sub n_def)
  with need block_ok_bounds(1) [OF ok] have grow: "cap (header b) < cap (header b')"
    by (simp add: b'_def word_less_nat_alt word_le_nat_alt sum flip: n_def)
  have "map (chars b') [0..<n + unat k] = map (chars b) [0..<n] @ take (unat k) other"
    using src by (intro map_upt_eq) (auto simp add: b'_def nth_append)
  then have pl: "payload b' = payload b @ take (unat k) other"
    using sum by (simp add: payload_def b'_def flip: n_def)
  show ?thesis
    using run ok' pl grow by (intro exI [of _ b']) (simp add: b'_def)
qed

lemma c_string_bytes:
  assumes "strlen_nat cstr < 2 ^ 64"
  shows "map (\<lambda>i. if i < unat (strlen cstr) then cstr ! i else f i) [0..<unat (strlen cstr)] =
     takeWhile (\<lambda>c. c \<noteq> 0) cstr"
proof -
  have u: "unat (strlen cstr) = strlen_nat cstr"
    using assms by (rule unat_strlen)
  have "map (\<lambda>i. if i < strlen_nat cstr then cstr ! i else f i) [0..<strlen_nat cstr] =
      take (strlen_nat cstr) cstr"
    using strlen_nat_le [of cstr] by (intro map_upt_eq) auto
  then show ?thesis by (simp add: u take_strlen_nat)
qed

lemma set_string_fits_post:
  assumes hp: "h p = Some b" and ok: "block_ok b"
    and fit: "\<not> cap (header b) < strlen cstr"
    and real: "strlen_nat cstr < 2 ^ 64"
  shows "\<exists>b'. gb_set_string a h (Some p) cstr = Inr (Some p, h(p \<mapsto> b')) \<and>
     block_ok b' \<and> len (header b') = strlen cstr \<and> cap (header b') = cap (header b) \<and>
     bsize b' = bsize b \<and> payload b' = takeWhile (\<lambda>c. c \<noteq> 0) cstr"
proof -
  define b' where "b' = b\<lparr>header := (header b)\<lparr>len := strlen cstr\<rparr>,
       chars := (\<lambda>i. if i < unat (strlen cstr) then cstr ! i
                     else if i = unat (strlen cstr) then 0 else chars b i)\<rparr>"
  have run: "gb_set_string a h (Some p) cstr = Inr (Some p, h(p \<mapsto> b'))"
    unfolding b'_def by (rule set_string_fits [where h = h, OF hp ok fit])
  have ok': "block_ok b'"
    using ok fit by (simp add: block_ok_def b'_def)
  have pl: "payload b' = takeWhile (\<lambda>c. c \<noteq> 0) cstr"
    using c_string_bytes [OF real] by (simp add: payload_def b'_def)
  show ?thesis
    using run ok' pl by (intro exI [of _ b']) (simp add: b'_def)
qed

lemma set_string_grows_post:
  assumes hp: "h p = Some b" and ok: "block_ok b"
    and need: "cap (header b) < strlen cstr"
    and fits: "strlen_nat cstr + 17 < 2 ^ 64"
    and got: "a h (header_size + strlen cstr + 1) = Some (q, g)"
    and fresh: "h q = None"
  shows "\<exists>b'. gb_set_string a h (Some p) cstr = Inr (Some q, (h(p := None))(q \<mapsto> b')) \<and>
     block_ok b' \<and> len (header b') = strlen cstr \<and> cap (header b') = strlen cstr \<and>
     bsize b' = header_size + strlen cstr + 1 \<and> payload b' = takeWhile (\<lambda>c. c \<noteq> 0) cstr"
proof -
  define b' where "b' = g\<lparr>bsize := header_size + strlen cstr + 1,
         header := \<lparr>len = strlen cstr, cap = strlen cstr\<rparr>,
         chars := (\<lambda>i. if i < unat (strlen cstr) then cstr ! i
                       else if i = unat (strlen cstr) then 0 else chars g i)\<rparr>"
  have real: "strlen_nat cstr < 2 ^ 64" using fits by simp
  have fits': "unat (strlen cstr) + 17 < 2 ^ 64"
    using fits by (simp add: unat_strlen [OF real])
  have run: "gb_set_string a h (Some p) cstr = Inr (Some q, (h(p := None))(q \<mapsto> b'))"
    unfolding b'_def
    by (rule set_string_grows [where h = h and a = a, OF hp ok need fits' got fresh])
  have ok': "block_ok b'"
    using unat_block_size [OF fits'] by (simp add: block_ok_def b'_def header_size_def)
  have pl: "payload b' = takeWhile (\<lambda>c. c \<noteq> 0) cstr"
    using c_string_bytes [OF real] by (simp add: payload_def b'_def)
  show ?thesis
    using run ok' pl by (intro exI [of _ b']) (simp add: b'_def)
qed

lemma make_copies_post:
  assumes got: "a h (header_size + n + 1) = Some (q, g)"
    and fits: "unat n + 17 < 2 ^ 64"
    and src: "unat n \<le> length src"
  shows "\<exists>b'. gb_make_string_length a h (Some src) n = Inr (Some q, h(q \<mapsto> b')) \<and>
     block_ok b' \<and> len (header b') = n \<and> cap (header b') = n \<and>
     bsize b' = header_size + n + 1 \<and> payload b' = take (unat n) src"
proof -
  define b' where "b' = g\<lparr>bsize := header_size + n + 1,
       header := \<lparr>len = n, cap = n\<rparr>,
       chars := (\<lambda>i. if i < unat n then src ! i else if i = unat n then 0 else chars g i)\<rparr>"
  have run: "gb_make_string_length a h (Some src) n = Inr (Some q, h(q \<mapsto> b'))"
    unfolding b'_def by (rule make_copies [where h = h and a = a, OF got fits src])
  have ok': "block_ok b'"
    using unat_block_size [OF fits] by (simp add: block_ok_def b'_def header_size_def)
  have "map (chars b') [0..<unat n] = take (unat n) src"
    using src by (intro map_upt_eq) (auto simp add: b'_def)
  then have pl: "payload b' = take (unat n) src"
    by (simp add: payload_def b'_def)
  show ?thesis
    using run ok' pl by (intro exI [of _ b']) (simp add: b'_def)
qed

lemma make_zeroes_post:
  assumes got: "a h (header_size + n + 1) = Some (q, g)"
    and fits: "unat n + 17 < 2 ^ 64"
  shows "\<exists>b'. gb_make_string_length a h None n = Inr (Some q, h(q \<mapsto> b')) \<and>
     block_ok b' \<and> len (header b') = n \<and> cap (header b') = n \<and>
     bsize b' = header_size + n + 1 \<and> payload b' = replicate (unat n) 0"
proof -
  define b' where "b' = g\<lparr>bsize := header_size + n + 1,
       header := \<lparr>len = n, cap = n\<rparr>,
       chars := (\<lambda>i. if i \<le> unat n then 0 else chars g i)\<rparr>"
  have run: "gb_make_string_length a h None n = Inr (Some q, h(q \<mapsto> b'))"
    unfolding b'_def by (rule make_zeroes [where h = h and a = a, OF got fits])
  have ok': "block_ok b'"
    using unat_block_size [OF fits] by (simp add: block_ok_def b'_def header_size_def)
  have "map (chars b') [0..<unat n] = replicate (unat n) 0"
    by (intro map_upt_eq) (auto simp add: b'_def)
  then have pl: "payload b' = replicate (unat n) 0"
    by (simp add: payload_def b'_def)
  show ?thesis
    using run ok' pl by (intro exI [of _ b']) (simp add: b'_def)
qed


lemma trim_post:
  assumes hp: "h p = Some b" and ok: "block_ok b"
  shows "\<exists>b'. gb_trim_string h (Some p) cut_set = Inr (Some p, h(p \<mapsto> b')) \<and>
     block_ok b' \<and>
     len (header b') = of_nat (length (strip_both (in_cut_set cut_set) (payload b))) \<and>
     cap (header b') = cap (header b) \<and> bsize b' = bsize b \<and>
     payload b' = strip_both (in_cut_set cut_set) (payload b)"
proof -
  define xs where "xs = payload b"
  define s where "s = length (takeWhile (in_cut_set cut_set) xs)"
  define m where "m = length (strip_both (in_cut_set cut_set) xs)"
  define b' where "b' = b\<lparr>header := (header b)\<lparr>len := of_nat m\<rparr>,
       chars := (\<lambda>i. if i < m then chars b (s + i) else if i = m then 0 else chars b i)\<rparr>"
  have lx: "length xs = unat (len (header b))" by (simp add: xs_def payload_def)
  have smn: "s + m \<le> length xs"
    unfolding s_def m_def by (rule length_strip_both_le)
  have um: "unat (of_nat m :: gb_usize) = m"
    using smn lx unat_bound64 [of "len (header b)"] by (simp add: unat_of_nat)
  have run: "gb_trim_string h (Some p) cut_set = Inr (Some p, h(p \<mapsto> b'))"
    unfolding b'_def m_def s_def xs_def by (rule trim_live [where h = h, OF hp ok])
  have ok': "block_ok b'"
    using ok smn lx by (simp add: block_ok_def b'_def um word_le_nat_alt)
  have "strip_both (in_cut_set cut_set) xs = take m (drop s xs)"
    unfolding m_def s_def by (rule strip_both_take)
  moreover have "map (chars b') [0..<m] = take m (drop s xs)"
    using smn lx by (intro map_upt_eq) (auto simp add: b'_def xs_def payload_def)
  ultimately have pl: "payload b' = strip_both (in_cut_set cut_set) xs"
    by (simp add: payload_def b'_def um)
  show ?thesis
    using run ok' pl by (intro exI [of _ b']) (simp add: b'_def flip: xs_def m_def)
qed

subsection \<open>Sizes that wrap around, and what a completed call returns\<close>

lemma write_tail_stops:
  assumes hq: "h q = Some b"
    and no: "\<not> (unat k \<le> length src \<and> unat off + unat k + 17 \<le> unat (bsize b))"
  shows "andthen (memcpy_in h (Some q) off src k) (\<lambda>h2.
         andthen (store_char h2 (Some q) (off + k) 0) (\<lambda>h3.
         andthen (gb_set_string_length h3 (Some q) (off + k)) (\<lambda>h4.
           Inr (Some q, h4)))) = Inl OutOfBounds"
proof (cases "unat k \<le> length src \<and> unat off + unat k + 16 \<le> unat (bsize b)")
  case False
  then show ?thesis
    using hq by (auto simp add: memcpy_in_def modify_Some header_size_def)
next
  case True
  have bs: "unat (bsize b) < 2 ^ 64" using unat_bound64 [of "bsize b"] by simp
  from True no have eq: "unat off + unat k + 16 = unat (bsize b)" by linarith
  then have "unat off + unat k < 2 ^ 64" using bs by linarith
  then have sum: "unat (off + k) = unat off + unat k" by (rule unat_plus)
  have cp: "memcpy_in h (Some q) off src k =
      Inr (h(q \<mapsto> b\<lparr>chars := (\<lambda>i. if unat off \<le> i \<and> i < unat off + unat k
                                    then src ! (i - unat off) else chars b i)\<rparr>))"
    using True hq by (intro memcpy_in_live) simp_all
  define b1 where "b1 = b\<lparr>chars := (\<lambda>i. if unat off \<le> i \<and> i < unat off + unat k
                                    then src ! (i - unat off) else chars b i)\<rparr>"
  have h1: "(h(q \<mapsto> b1)) q = Some b1" by simp
  have full: "unat (off + k) + 16 = unat (bsize b1)"
    using eq by (simp add: sum b1_def)
  show ?thesis
    using store_char_full [where h = "h(q \<mapsto> b1)" and p = q and b = b1, OF h1 full]
    by (simp add: cp flip: b1_def)
qed


lemma write_tail_result:
  assumes hq: "h q = Some b"
    and res: "andthen (memcpy_in h (Some q) off src k) (\<lambda>h2.
         andthen (store_char h2 (Some q) (off + k) 0) (\<lambda>h3.
         andthen (gb_set_string_length h3 (Some q) (off + k)) (\<lambda>h4.
           Inr (Some q, h4)))) = Inr (r, h')"
  shows "unat off + unat k + 17 \<le> unat (bsize b)"
    and "unat (off + k) = unat off + unat k"
    and "r = Some q"
    and "h' = h(q \<mapsto> b\<lparr>header := (header b)\<lparr>len := off + k\<rparr>,
       chars := (\<lambda>i. if unat off \<le> i \<and> i < unat off + unat k then src ! (i - unat off)
                     else if i = unat off + unat k then 0 else chars b i)\<rparr>)"
proof -
  have both: "unat k \<le> length src \<and> unat off + unat k + 17 \<le> unat (bsize b)"
  proof (rule ccontr)
    assume "\<not> (unat k \<le> length src \<and> unat off + unat k + 17 \<le> unat (bsize b))"
    from write_tail_stops [where h = h, OF hq this] res show False by simp
  qed
  then show room: "unat off + unat k + 17 \<le> unat (bsize b)" by simp
  from both have src: "unat k \<le> length src" by simp
  have "unat off + unat k < 2 ^ 64"
    using room unat_bound64 [of "bsize b"] by simp
  then show sum: "unat (off + k) = unat off + unat k" by (rule unat_plus)
  from write_tail [where h = h, OF hq src sum room] res
  show "r = Some q"
    and "h' = h(q \<mapsto> b\<lparr>header := (header b)\<lparr>len := off + k\<rparr>,
       chars := (\<lambda>i. if unat off \<le> i \<and> i < unat off + unat k then src ! (i - unat off)
                     else if i = unat off + unat k then 0 else chars b i)\<rparr>)"
    by simp_all
qed

lemma write_front_result:
  assumes hq: "h q = Some b"
    and res: "andthen (memcpy_in h (Some q) 0 src k) (\<lambda>h2.
         andthen (store_char h2 (Some q) k 0) (\<lambda>h3.
         andthen (gb_set_string_length h3 (Some q) k) (\<lambda>h4.
           Inr (Some q, h4)))) = Inr (r, h')"
  shows "unat k + 17 \<le> unat (bsize b)"
    and "r = Some q"
    and "h' = h(q \<mapsto> b\<lparr>header := (header b)\<lparr>len := k\<rparr>,
       chars := (\<lambda>i. if i < unat k then src ! i
                     else if i = unat k then 0 else chars b i)\<rparr>)"
  using write_tail_result(1,3,4) [where h = h and off = 0 and src = src and k = k
      and r = r and h' = h', OF hq] res
  by (simp_all cong: if_cong)



lemma make_wraps_faults:
  assumes wraps: "\<not> unat n + 17 < 2 ^ 64"
    and other: "init \<noteq> None \<or> n \<noteq> - 1"
  shows "gb_make_string_length a h init n \<noteq> Inr (Some q, h')"
proof -
  define sz where "sz = header_size + n + 1"
  have n64: "unat n < 2 ^ 64" using unat_bound64 [of n] by simp
  have "unat sz = unat (n + 17)" by (simp add: sz_def header_size_def add.commute)
  also have "\<dots> = (unat n + 17) mod 2 ^ 64"
    by (simp add: unat_word_ariths)
  also have "\<dots> = unat n + 17 - 2 ^ 64"
    using wraps n64 by (simp add: mod_if)
  finally have usz: "unat sz = unat n + 17 - 2 ^ 64" .
  have small: "unat sz \<le> 16" using usz n64 by simp
  have n0: "n \<noteq> 0" using wraps by auto
  show ?thesis
  proof (cases "a h sz")
    case None
    then show ?thesis
      by (cases init)
        (simp_all add: gb_make_string_length_def GB_ALLOC_def memset_zero_def modify_def
          flip: sz_def)
  next
    case (Some r)
    obtain p g where r: "r = (p, g)" by (cases r)
    show ?thesis
    proof (cases "sz < header_size")
      case True
      then show ?thesis
        using Some r
        by (cases init)
          (simp_all add: gb_make_string_length_def GB_ALLOC_def memset_zero_def modify_Some
            gb_set_string_length_def flip: sz_def)
    next
      case False
      then have sz16: "unat sz = 16"
        using small by (simp add: word_less_nat_alt header_size_def)
      then have "unat n = unat (- 1 :: gb_usize)"
        using usz n64 by (simp add: unat_size_max)
      then have "n = - 1"
        by (simp only: word_unat_eq_iff)
      with other obtain src where init: "init = Some src" by auto
      have hs: "unat header_size = 16" by (simp add: header_size_def)
      have far: "\<not> unat n \<le> 0" using n0 by (simp add: unat_eq_0)
      show ?thesis
        using Some r far n0 False sz16 hs
        by (simp add: init gb_make_string_length_def GB_ALLOC_def modify_Some
            gb_set_string_length_def gb_set_string_capacity_def memcpy_in_def
            flip: sz_def)
    qed
  qed
qed

lemma make_size_max:
  "gb_make_string_length (alloc_at 1) Map.empty None 18446744073709551615 =
     Inr (Some 1, heap_of 1 \<lparr>bsize = 16,
       header = \<lparr>len = 18446744073709551615, cap = 72057594037927935\<rparr>, chars = chars junk\<rparr>)"
proof -
  have sz: "header_size + 18446744073709551615 + 1 = (16 :: gb_usize)"
    by (simp add: header_size_def)
  have off: "header_size + 18446744073709551615 = (15 :: gb_usize)"
    by (simp add: header_size_def)
  have top: "set_byte 18446744073709551615 7 0 = 72057594037927935"
    by (simp add: set_byte_def)
  show ?thesis
    unfolding gb_make_string_length_def sz
    apply (simp add: GB_ALLOC_def alloc_at_def memset_zero_def modify_Some
        gb_set_string_length_live gb_set_string_capacity_live store_char_def Let_def off
        store_header_byte_def top header_size_def heap_of_def)
    apply (rule heap_upd_cong, rule block.equality, simp_all add: header_upd_all)
    done
qed




lemma make_result:
  assumes res: "gb_make_string_length a h init n = Inr (Some q, h')"
    and src: "case init of None \<Rightarrow> True | Some bs \<Rightarrow> unat n \<le> length bs"
    and other: "init \<noteq> None \<or> n \<noteq> - 1"
  shows "\<exists>b'. h' q = Some b' \<and> block_ok b' \<and> len (header b') = n \<and> cap (header b') = n"
proof (cases "unat n + 17 < 2 ^ 64")
  case False
  then show ?thesis
    using make_wraps_faults [of n init a h q h', OF _ other] res by simp
next
  case fits: True
  show ?thesis
  proof (cases "a h (header_size + n + 1)")
    case None
    then show ?thesis
      using make_no_memory [where h = h and a = a and n = n] res by (cases init) simp_all
  next
    case (Some r)
    obtain q' g where r: "r = (q', g)" by (cases r)
    show ?thesis
    proof (cases init)
      case None
      from make_zeroes_post [where h = h and a = a, OF Some [unfolded r] fits]
      obtain b' where run: "gb_make_string_length a h None n = Inr (Some q', h(q' \<mapsto> b'))"
        and post: "block_ok b'" "len (header b') = n" "cap (header b') = n"
        by blast
      from run res None have "q = q'" "h' = h(q' \<mapsto> b')" by auto
      then show ?thesis using post by (intro exI [of _ b']) simp
    next
      case (Some bs)
      then have le: "unat n \<le> length bs" using src by simp
      from make_copies_post [where h = h and a = a, OF \<open>a h (header_size + n + 1) = Some r\<close> [unfolded r] fits le]
      obtain b' where run: "gb_make_string_length a h (Some bs) n = Inr (Some q', h(q' \<mapsto> b'))"
        and post: "block_ok b'" "len (header b') = n" "cap (header b') = n"
        by blast
      from run res Some have "q = q'" "h' = h(q' \<mapsto> b')" by auto
      then show ?thesis using post by (intro exI [of _ b']) simp
    qed
  qed
qed

lemma ok_invariant: "gb_string_ok h s \<Longrightarrow> string_invariant h s"
proof -
  assume "gb_string_ok h s"
  then obtain p b where s: "s = Some p" and hp: "h p = Some b" and ok: "block_ok b"
    by (auto simp add: gb_string_ok_iff)
  show ?thesis
    using observe(2,3,6) [where h = h, OF hp ok] ok
    by (simp add: string_invariant_def s block_ok_def)
qed

subsection \<open>Strings of which only the two invariants are known\<close>

lemma string_invariant_iff:
  "string_invariant h s \<longleftrightarrow> (\<exists>p b. s = Some p \<and> h p = Some b \<and> block_inv b)"
proof
  assume si: "string_invariant h s"
  then obtain p b where s: "s = Some p" and hp: "h p = Some b"
    by (auto simp add: string_invariant_def gb_string_length_def GB_STRING_HEADER_def deref_def
        split: option.splits)
  have big: "\<not> bsize b < header_size"
    using si hp by (auto simp add: string_invariant_def gb_string_length_def GB_STRING_HEADER_def s
        split: if_splits)
  have "len (header b) \<le> cap (header b)"
    and "load_char b (uint (len (header b))) = Inr 0"
    using si hp big
    by (simp_all add: string_invariant_def gb_string_length_live gb_string_capacity_live s
        char_at_def)
  then have "block_inv b"
    by (auto simp add: block_inv_def load_char_def split: if_splits)
  then show "\<exists>p b. s = Some p \<and> h p = Some b \<and> block_inv b"
    using s hp by blast
next
  assume "\<exists>p b. s = Some p \<and> h p = Some b \<and> block_inv b"
  then obtain p b where s: "s = Some p" and hp: "h p = Some b" and inv: "block_inv b"
    by blast
  have "load_char b (uint (len (header b))) = Inr 0"
    using inv by (simp add: block_inv_def load_char_def)
  then show "string_invariant h s"
    using hp inv block_inv_bounds(4) [OF inv]
    by (simp add: string_invariant_def gb_string_length_live gb_string_capacity_live s
        char_at_def block_inv_def)
qed

lemma make_short_source:
  assumes short: "\<not> unat n \<le> length bs"
  shows "gb_make_string_length a h (Some bs) n \<noteq> Inr (Some q, h')"
proof (cases "a h (header_size + n + 1)")
  case None
  then show ?thesis
    by (simp add: gb_make_string_length_def GB_ALLOC_def)
next
  case (Some r)
  obtain p g where r: "r = (p, g)" by (cases r)
  have n0: "n \<noteq> 0" using short by auto
  show ?thesis
  proof (cases "header_size + n + 1 < header_size")
    case True
    then show ?thesis
      using Some r
      by (simp add: gb_make_string_length_def GB_ALLOC_def gb_set_string_length_def modify_Some)
  next
    case False
    then show ?thesis
      using Some r n0 short
      by (simp add: gb_make_string_length_def GB_ALLOC_def gb_set_string_length_live
          gb_set_string_capacity_live memcpy_in_def modify_Some)
  qed
qed

lemma make_space_inv:
  assumes hp: "h p = Some b" and inv: "block_inv b"
    and aok: "allocator_ok a h"
    and res: "gb_string_make_space_for a h (Some p) k = Inr (Some q, h')"
  shows "\<exists>b'. h' q = Some b' \<and> len (header b') = len (header b) \<and>
     unat (len (header b)) + 17 \<le> unat (bsize b') \<and>
     chars b' (unat (len (header b))) = 0 \<and>
     (k \<le> cap (header b) - len (header b) \<and> cap (header b') = cap (header b) \<or>
      cap (header b') = len (header b) + k)"
proof (cases "k \<le> cap (header b) - len (header b)")
  case True
  then have "gb_string_make_space_for a h (Some p) k = Inr (Some p, h)"
    by (rule make_space_fits_inv [where h = h, OF hp inv])
  with res have "q = p" "h' = h" by auto
  then show ?thesis
    using hp inv True block_inv_bounds(2) [OF inv] by (simp add: block_inv_def)
next
  case False
  show ?thesis
  proof (cases "unat (len (header b)) + unat k + 17 < 2 ^ 64")
    case wraps: False
    have "gb_string_make_space_for a h (Some p) k =
        Inr (Some p, h(p \<mapsto> b\<lparr>header := (header b)\<lparr>cap := len (header b) + k\<rparr>\<rparr>))"
      by (rule make_space_wraps_inv [where h = h and a = a, OF hp inv False wraps])
    with res have "q = p" "h' = h(p \<mapsto> b\<lparr>header := (header b)\<lparr>cap := len (header b) + k\<rparr>\<rparr>)"
      by auto
    then show ?thesis
      using inv block_inv_bounds(2) [OF inv] by (simp add: block_inv_def)
  next
    case fits: True
    show ?thesis
    proof (cases "a h (header_size + (len (header b) + k) + 1)")
      case None
      then have "gb_string_make_space_for a h (Some p) k = Inr (None, h)"
        by (rule make_space_no_memory_inv [where h = h and a = a, OF hp inv False fits])
      with res show ?thesis by simp
    next
      case (Some r)
      obtain q' g where r: "r = (q', g)" by (cases r)
      have fresh: "h q' = None"
        using aok Some r by (auto simp add: allocator_ok_def)
      define b' where "b' = g\<lparr>bsize := header_size + (len (header b) + k) + 1,
        header := (header b)\<lparr>cap := len (header b) + k\<rparr>,
        chars := (\<lambda>i. if i \<le> unat (len (header b)) then chars b i else chars g i)\<rparr>"
      have "gb_string_make_space_for a h (Some p) k = Inr (Some q', (h(p := None))(q' \<mapsto> b'))"
        unfolding b'_def
        by (rule make_space_grows_inv [where h = h and a = a, OF hp inv False fits
              Some [unfolded r] fresh])
      with res have "q = q'" "h' = (h(p := None))(q' \<mapsto> b')" by auto
      moreover have "unat (len (header b)) + 17 \<le> unat (bsize b')"
        using make_space_sizes_inv(2) [OF False fits] by (simp add: b'_def)
      moreover have "chars b' (unat (len (header b))) = 0"
        using inv by (simp add: b'_def block_inv_def)
      ultimately show ?thesis
        by (intro exI [of _ b']) (simp add: b'_def)
    qed
  qed
qed

lemma reserve_inv:
  assumes hp: "h p = Some b" and inv: "block_inv b"
    and aok: "allocator_ok a h"
    and sum: "unat (len (header b)) + unat k < 2 ^ 64"
    and res: "gb_string_make_space_for a h (Some p) k = Inr (Some q, h')"
  shows "\<exists>b'. h' q = Some b' \<and> block_inv b'"
proof -
  from make_space_inv [where h = h, OF hp inv aok res]
  obtain b' where hq: "h' q = Some b'" and l: "len (header b') = len (header b)"
    and room: "unat (len (header b)) + 17 \<le> unat (bsize b')"
    and z: "chars b' (unat (len (header b))) = 0"
    and c: "k \<le> cap (header b) - len (header b) \<and> cap (header b') = cap (header b) \<or>
      cap (header b') = len (header b) + k"
    by blast
  from c have "len (header b) \<le> cap (header b')"
  proof
    assume "k \<le> cap (header b) - len (header b) \<and> cap (header b') = cap (header b)"
    then show ?thesis using inv by (simp add: block_inv_def)
  next
    assume "cap (header b') = len (header b) + k"
    then show ?thesis using sum by (simp add: word_le_nat_alt unat_plus)
  qed
  then have "block_inv b'"
    using l room z by (simp add: block_inv_def header_size_def)
  with hq show ?thesis by blast
qed

lemma append_inv:
  assumes hp: "h p = Some b" and inv: "block_inv b"
    and aok: "allocator_ok a h"
    and res: "gb_append_string_length a h (Some p) other k = Inr (Some q, h')"
  shows "\<exists>b'. h' q = Some b' \<and> block_inv b'"
proof (cases "gb_string_make_space_for a h (Some p) k")
  case (Inl e)
  then show ?thesis
    using res hp block_inv_bounds(4) [OF inv]
    by (simp add: gb_append_string_length_def gb_string_length_live)
next
  case (Inr rh)
  obtain r1 h1 where rh: "rh = (r1, h1)" by (cases rh)
  show ?thesis
  proof (cases r1)
    case None
    then show ?thesis
      using res hp block_inv_bounds(4) [OF inv] Inr rh
      by (simp add: gb_append_string_length_def gb_string_length_live)
  next
    case (Some q1)
    have run: "gb_string_make_space_for a h (Some p) k = Inr (Some q1, h1)"
      using Inr rh Some by simp
    from make_space_inv [where h = h, OF hp inv aok run]
    obtain b1 where h1q: "h1 q1 = Some b1"
      and c: "k \<le> cap (header b) - len (header b) \<and> cap (header b1) = cap (header b) \<or>
        cap (header b1) = len (header b) + k"
      by blast
    have tail: "andthen (memcpy_in h1 (Some q1) (len (header b)) other k) (\<lambda>h2.
         andthen (store_char h2 (Some q1) (len (header b) + k) 0) (\<lambda>h3.
         andthen (gb_set_string_length h3 (Some q1) (len (header b) + k)) (\<lambda>h4.
           Inr (Some q1, h4)))) = Inr (Some q, h')"
      using res hp block_inv_bounds(4) [OF inv] run
      by (simp add: gb_append_string_length_def gb_string_length_live)
    note wt = write_tail_result [where h = h1, OF h1q tail]
    define b' where "b' = b1\<lparr>header := (header b1)\<lparr>len := len (header b) + k\<rparr>,
       chars := (\<lambda>i. if unat (len (header b)) \<le> i \<and> i < unat (len (header b)) + unat k
                     then other ! (i - unat (len (header b)))
                     else if i = unat (len (header b)) + unat k then 0 else chars b1 i)\<rparr>"
    have q: "q = q1" and h': "h' = h1(q1 \<mapsto> b')"
      using wt(3,4) by (simp_all add: b'_def)
    from c have le: "len (header b) + k \<le> cap (header b1)"
    proof
      assume fit: "k \<le> cap (header b) - len (header b) \<and> cap (header b1) = cap (header b)"
      then show ?thesis
        using available_le_inv(1) [OF inv, of k] by (simp add: word_le_nat_alt wt(2))
    next
      assume "cap (header b1) = len (header b) + k"
      then show ?thesis by simp
    qed
    have "block_inv b'"
      using wt(1) le by (simp add: block_inv_def b'_def header_size_def wt(2))
    then show ?thesis
      by (intro exI [of _ b']) (simp add: q h')
  qed
qed

lemma set_string_inv:
  assumes hp: "h p = Some b" and inv: "block_inv b"
    and aok: "allocator_ok a h"
    and res: "gb_set_string a h (Some p) cstr = Inr (Some q, h')"
  shows "\<exists>b'. h' q = Some b' \<and> block_inv b'"
proof -
  define n where "n = strlen cstr"
  have fin: "\<exists>b'. h' q = Some b' \<and> block_inv b'"
    if h1q: "h1 q1 = Some b1" and le: "n \<le> cap (header b1)"
      and tail: "andthen (memcpy_in h1 (Some q1) 0 cstr n) (\<lambda>h2.
         andthen (store_char h2 (Some q1) n 0) (\<lambda>h3.
         andthen (gb_set_string_length h3 (Some q1) n) (\<lambda>h4.
           Inr (Some q1, h4)))) = Inr (Some q, h')"
    for h1 q1 b1
  proof -
    note wf = write_front_result [where h = h1, OF h1q tail]
    define b' where "b' = b1\<lparr>header := (header b1)\<lparr>len := n\<rparr>,
       chars := (\<lambda>i. if i < unat n then cstr ! i
                     else if i = unat n then 0 else chars b1 i)\<rparr>"
    have "q = q1" "h' = h1(q1 \<mapsto> b')"
      using wf(2,3) by (simp_all add: b'_def)
    moreover have "block_inv b'"
      using wf(1) le by (simp add: block_inv_def b'_def header_size_def)
    ultimately show ?thesis
      by (intro exI [of _ b']) simp
  qed
  note big = block_inv_bounds(4) [OF inv]
  show ?thesis
  proof (cases "cap (header b) < n")
    case False
    have "andthen (memcpy_in h (Some p) 0 cstr n) (\<lambda>h2.
         andthen (store_char h2 (Some p) n 0) (\<lambda>h3.
         andthen (gb_set_string_length h3 (Some p) n) (\<lambda>h4.
           Inr (Some p, h4)))) = Inr (Some q, h')"
      using res hp big False
      by (simp add: gb_set_string_def gb_string_capacity_live Let_def flip: n_def)
    moreover have "n \<le> cap (header b)" using False by simp
    ultimately show ?thesis using hp by (intro fin [where ?h1.0 = h and ?q1.0 = p])
  next
    case True
    define l where "l = len (header b)"
    have lc: "unat l \<le> unat (cap (header b))"
      using block_inv_bounds(1) [OF inv] by (simp add: l_def)
    have cn: "unat (cap (header b)) < unat n"
      using True by (simp add: word_less_nat_alt)
    have need: "\<not> n - l \<le> cap (header b) - l"
      using lc cn by (simp add: word_le_nat_alt unat_sub)
    show ?thesis
    proof (cases "gb_string_make_space_for a h (Some p) (n - l)")
      case (Inl e)
      then show ?thesis
        using res hp big True
        by (simp add: gb_set_string_def gb_string_capacity_live gb_string_length_live
            Let_def flip: n_def l_def)
    next
      case (Inr rh)
      obtain r1 h1 where rh: "rh = (r1, h1)" by (cases rh)
      show ?thesis
      proof (cases r1)
        case None
        then show ?thesis
          using res hp big True Inr rh
          by (simp add: gb_set_string_def gb_string_capacity_live gb_string_length_live
              Let_def flip: n_def l_def)
      next
        case (Some q1)
        have run: "gb_string_make_space_for a h (Some p) (n - l) = Inr (Some q1, h1)"
          using Inr rh Some by simp
        from make_space_inv [where h = h, OF hp inv aok run [unfolded l_def]] need
        obtain b1 where h1q: "h1 q1 = Some b1" and c: "cap (header b1) = n"
          by (auto simp add: l_def)
        have "andthen (memcpy_in h1 (Some q1) 0 cstr n) (\<lambda>h2.
           andthen (store_char h2 (Some q1) n 0) (\<lambda>h3.
           andthen (gb_set_string_length h3 (Some q1) n) (\<lambda>h4.
             Inr (Some q1, h4)))) = Inr (Some q, h')"
          using res hp big True run
          by (simp add: gb_set_string_def gb_string_capacity_live gb_string_length_live
              Let_def flip: n_def l_def)
        moreover have "n \<le> cap (header b1)" using c by simp
        ultimately show ?thesis using h1q by (intro fin [where ?h1.0 = h1 and ?q1.0 = q1])
      qed
    qed
  qed
qed

lemma clear_inv_post:
  assumes hp: "h p = Some b" and inv: "block_inv b"
  shows "\<exists>b'. gb_clear_string h (Some p) = Inr (h(p \<mapsto> b')) \<and> block_inv b'"
proof -
  define b' where "b' = b\<lparr>header := (header b)\<lparr>len := 0\<rparr>, chars := (chars b)(0 := 0)\<rparr>"
  have "gb_clear_string h (Some p) = Inr (h(p \<mapsto> b'))"
    unfolding b'_def by (rule clear_inv [where h = h, OF hp inv])
  moreover have "block_inv b'"
    using block_inv_bounds(2) [OF inv] by (simp add: block_inv_def b'_def header_size_def)
  ultimately show ?thesis by blast
qed

lemma trim_inv_post:
  assumes hp: "h p = Some b" and inv: "block_inv b"
  shows "\<exists>b'. gb_trim_string h (Some p) cut_set = Inr (Some p, h(p \<mapsto> b')) \<and> block_inv b'"
proof -
  define xs where "xs = payload b"
  define s where "s = length (takeWhile (in_cut_set cut_set) xs)"
  define m where "m = length (strip_both (in_cut_set cut_set) xs)"
  define b' where "b' = b\<lparr>header := (header b)\<lparr>len := of_nat m\<rparr>,
       chars := (\<lambda>i. if i < m then chars b (s + i) else if i = m then 0 else chars b i)\<rparr>"
  have lx: "length xs = unat (len (header b))" by (simp add: xs_def payload_def)
  have smn: "s + m \<le> length xs"
    unfolding s_def m_def by (rule length_strip_both_le)
  have um: "unat (of_nat m :: gb_usize) = m"
    using smn lx unat_bound64 [of "len (header b)"] by (simp add: unat_of_nat)
  have "gb_trim_string h (Some p) cut_set = Inr (Some p, h(p \<mapsto> b'))"
    unfolding b'_def m_def s_def xs_def by (rule trim_inv [where h = h, OF hp inv])
  moreover have "block_inv b'"
    using block_inv_bounds(1,2) [OF inv] smn lx
    by (simp add: block_inv_def b'_def um word_le_nat_alt header_size_def)
  ultimately show ?thesis by blast
qed

subsection \<open>Facts about trimming\<close>

lemma in_cut_set_iff:
  "in_cut_set cut_set c \<longleftrightarrow> c = 0 \<or> c \<in> set (takeWhile (\<lambda>x. x \<noteq> 0) cut_set)"
  unfolding in_cut_set_def by (induction cut_set) auto

lemma cut_or_zero_eq: "cut_or_zero cut_set = in_cut_set cut_set"
  by (rule ext) (simp add: cut_or_zero_def member_of_cut_set_def in_cut_set_iff)

lemma strip_both_ends:
  assumes "strip_both P xs \<noteq> []"
  shows "\<not> P (hd (strip_both P xs))" and "\<not> P (last (strip_both P xs))"
proof -
  define zs where "zs = dropWhile P xs"
  define k where "k = length (dropWhile P (rev zs))"
  have ws: "strip_both P xs = take k zs"
    unfolding strip_both_def zs_def [symmetric] k_def by (rule strip_suffix_take)
  with assms have "zs \<noteq> []" "0 < k" by auto
  then have "hd (take k zs) = hd zs" by (cases zs) (auto simp add: take_Suc_conv_app_nth)
  moreover have "\<not> P (hd zs)"
    using \<open>zs \<noteq> []\<close> unfolding zs_def by (rule hd_dropWhile)
  ultimately show "\<not> P (hd (strip_both P xs))" by (simp add: ws)
  have ne: "dropWhile P (rev zs) \<noteq> []"
    using assms by (simp add: strip_both_def zs_def)
  have "last (strip_both P xs) = hd (dropWhile P (rev zs))"
    using ne by (simp add: strip_both_def zs_def last_rev)
  then show "\<not> P (last (strip_both P xs))"
    using hd_dropWhile [OF ne] by simp
qed

lemma takeWhile_strip_both: "takeWhile P (strip_both P xs) = []"
  using strip_both_ends(1) [of P xs] by (cases "strip_both P xs") auto

lemma strip_both_idem: "strip_both P (strip_both P xs) = strip_both P xs"
proof (cases "strip_both P xs = []")
  case True
  have "strip_both P [] = []" by (simp add: strip_both_def)
  with True show ?thesis by (simp only:)
next
  case False
  define ws where "ws = strip_both P xs"
  have h: "\<not> P (hd ws)" and l: "\<not> P (last ws)" and ne: "ws \<noteq> []"
    using False strip_both_ends [of P xs] by (simp_all add: ws_def)
  have "dropWhile P ws = ws"
    using h ne by (cases ws) auto
  moreover have "dropWhile P (rev ws) = rev ws"
    using l ne by (cases "rev ws") (auto simp add: last_rev [symmetric] hd_rev)
  ultimately have "strip_both P ws = ws"
    by (simp add: strip_both_def)
  then show ?thesis by (simp only: ws_def)
qed

lemma trim_cursors:
  fixes b :: block and cut_set :: "byte list" and n :: nat
  assumes room: "n + 16 \<le> unat (bsize b)"
  defines "xs \<equiv> map (chars b) [0..<n]"
  defines "s \<equiv> length (takeWhile (in_cut_set cut_set) xs)"
  defines "m \<equiv> length (strip_both (in_cut_set cut_set) xs)"
  shows "trim_start b cut_set 0 (int n - 1) = Inr (int s)"
    and "trim_end b cut_set (int s) (int n - 1) = Inr (int s + int m - 1)"
proof -
  have lx: "length xs = n" by (simp add: xs_def)
  have sn: "s \<le> n"
    using length_takeWhile_le [of "in_cut_set cut_set" xs] by (simp add: s_def lx)
  show "trim_start b cut_set 0 (int n - 1) = Inr (int s)"
    using trim_start_scan [OF room, of 0 cut_set] by (simp add: s_def xs_def)
  show "trim_end b cut_set (int s) (int n - 1) = Inr (int s + int m - 1)"
  proof (cases "s < n")
    case False
    then have sn': "s = n" using sn by simp
    have "m = 0" using sn' by (simp add: m_def strip_both_all s_def lx)
    then show ?thesis
      using sn' trim_end_passed [of b cut_set n] by simp
  next
    case True
    define k where "k = n - 1 - s"
    have sk: "s + k < n" and nk: "int n - 1 = int (s + k)"
      using True by (simp_all add: k_def)
    have whole: "take k (drop (Suc s) xs) = drop (Suc s) xs"
      by (simp add: k_def lx)
    define m' where "m' = length (dropWhile (in_cut_set cut_set) (rev (drop (Suc s) xs)))"
    have m: "m = Suc m'"
      using True strip_both_some [of "in_cut_set cut_set" xs]
      by (simp add: m_def m'_def s_def lx)
    have "trim_end b cut_set (int s) (int (s + k)) = Inr (int (s + m'))"
      using trim_end_scan [OF room sk, of cut_set]
      by (simp add: whole m'_def flip: xs_def)
    then show ?thesis
      by (simp add: nk m)
  qed
qed

subsection \<open>The concrete inputs are well-formed\<close>

lemma hello_heap_live:
  "hello_heap 0 = Some (string_block 5 5 (ascii ''Hello''))" "hello_heap (Suc n) = None"
  by (simp_all add: hello_heap_def heap_of_def)

lemma hello_block_ok: "block_ok (string_block 5 5 (ascii ''Hello''))"
  by (simp add: block_ok_def string_block_def bytes_at_def ascii_def header_size_def)

lemma hello_heap_obs:
  "gb_string_length hello_heap (Some 0) = Inr 5"
  "gb_string_capacity hello_heap (Some 0) = Inr 5"
  "gb_string_available_space hello_heap (Some 0) = Inr 0"
  using observe(2-4) [where h = hello_heap and q = 0, OF hello_heap_live(1) hello_block_ok]
  by (simp_all add: string_block_def)

lemma spare_heap_live:
  "spare_heap 0 = Some (string_block 2 8 (ascii ''Hi''))" "spare_heap (Suc n) = None"
  by (simp_all add: spare_heap_def heap_of_def)

lemma spare_block_ok: "block_ok (string_block 2 8 (ascii ''Hi''))"
  by (simp add: block_ok_def string_block_def bytes_at_def ascii_def header_size_def)

lemma spare_heap_ok: "gb_string_ok spare_heap (Some 0)"
  by (simp add: gb_string_ok_live [where h = spare_heap, OF spare_heap_live(1)] spare_block_ok)

lemma payload_string_block:
  "length xs = unat l \<Longrightarrow> payload (string_block l c xs) = xs"
  by (simp add: payload_def string_block_def) (auto intro!: map_upt_eq simp add: bytes_at_def)

lemma spare_heap_obs:
  "gb_string_length spare_heap (Some 0) = Inr 2"
  "gb_string_capacity spare_heap (Some 0) = Inr 8"
  "gb_string_available_space spare_heap (Some 0) = Inr 6"
  "contents spare_heap (Some 0) = Inr (ascii ''Hi'')"
  using observe(2-5) [where h = spare_heap and q = 0, OF spare_heap_live(1) spare_block_ok]
  by (simp_all add: payload_string_block ascii_def) (simp_all add: string_block_def)

lemma hello_heap_contents: "contents hello_heap (Some 0) = Inr (ascii ''Hello'')"
  using observe(5) [where h = hello_heap and q = 0, OF hello_heap_live(1) hello_block_ok]
  by (simp add: payload_string_block ascii_def)

lemma size_max_wraps: "(18446744073709551620 :: gb_usize) = 4"
  by (simp add: word_eq_iff_unsigned [where ?'a = nat])

lemma padded_heap_live:
  "padded_heap 0 = Some (string_block 29 29 (ascii ''Ab.;!...AHello World       ??''))"
  by (simp add: padded_heap_def heap_of_def)

lemma padded_block_ok: "block_ok (string_block 29 29 (ascii ''Ab.;!...AHello World       ??''))"
  by (simp add: block_ok_def string_block_def bytes_at_def ascii_def header_size_def)

lemma padded_payload:
  "payload (string_block 29 29 (ascii ''Ab.;!...AHello World       ??'')) =
     ascii ''Ab.;!...AHello World       ??''"
  by (rule payload_string_block) (simp add: ascii_def)

lemma padded_strip:
  "strip_both (in_cut_set (ascii ''Ab.;!. ?'')) (ascii ''Ab.;!...AHello World       ??'') =
     ascii ''Hello World''"
  by (simp add: strip_both_def in_cut_set_def ascii_def)

lemma zeros_heap_live: "zeros_heap 0 = Some (string_block 3 3 [0, 120, 0])"
  by (simp add: zeros_heap_def heap_of_def)

lemma zeros_block_ok: "block_ok (string_block 3 3 [0, 120, 0])"
  by (simp add: block_ok_def string_block_def bytes_at_def header_size_def)

lemma zeros_payload: "payload (string_block 3 3 [0, 120, 0]) = [0, 120, 0]"
  by (rule payload_string_block) simp

lemma padded_heap_ok: "gb_string_ok padded_heap (Some 0)"
  by (simp add: gb_string_ok_live [where h = padded_heap, OF padded_heap_live] padded_block_ok)

lemma padded_heap_obs:
  "deref padded_heap (Some 0) = Inr (string_block 29 29 (ascii ''Ab.;!...AHello World       ??''))"
  "contents padded_heap (Some 0) = Inr (ascii ''Ab.;!...AHello World       ??'')"
  "gb_string_capacity padded_heap (Some 0) = Inr 29"
  using observe(3,5) [where h = padded_heap and q = 0, OF padded_heap_live padded_block_ok]
  by (simp_all add: padded_heap_live padded_payload) (simp add: string_block_def)

lemma padded_lead:
  "length (takeWhile (in_cut_set (ascii ''Ab.;!. ?'')) (ascii ''Ab.;!...AHello World       ??'')) = 9"
  by (simp add: in_cut_set_def ascii_def)

lemma hello_heap_deref: "deref hello_heap (Some 0) = Inr (string_block 5 5 (ascii ''Hello''))"
  by (simp add: hello_heap_live)

lemma hello_all_cut: "list_all (in_cut_set (ascii ''Helo'')) (ascii ''Hello'')"
  by (simp add: in_cut_set_def ascii_def)

lemma zeros_heap_ok: "gb_string_ok zeros_heap (Some 0)"
  by (simp add: gb_string_ok_live [where h = zeros_heap, OF zeros_heap_live] zeros_block_ok)

lemma zeros_heap_contents: "contents zeros_heap (Some 0) = Inr [0, 120, 0]"
  using observe(5) [where h = zeros_heap and q = 0, OF zeros_heap_live zeros_block_ok]
  by (simp add: zeros_payload)

lemma zeros_trimmed:
  "gb_trim_string zeros_heap (Some 0) (ascii ''a'') =
     Inr (Some 0, heap_of 0 (string_block 1 3 [120]))"
proof -
  define b where "b = string_block 3 3 [0, 120, 0]"
  define b' where "b' = b\<lparr>
       header := (header b)\<lparr>len := of_nat (length (strip_both (in_cut_set (ascii ''a'')) (payload b)))\<rparr>,
       chars := (\<lambda>i. if i < length (strip_both (in_cut_set (ascii ''a'')) (payload b))
                     then chars b (length (takeWhile (in_cut_set (ascii ''a'')) (payload b)) + i)
                     else if i = length (strip_both (in_cut_set (ascii ''a'')) (payload b)) then 0
                     else chars b i)\<rparr>"
  have strip: "strip_both (in_cut_set (ascii ''a'')) [0, 120, 0 :: byte] = [120]"
    and lead: "length (takeWhile (in_cut_set (ascii ''a'')) [0, 120, 0 :: byte]) = 1"
    by (simp_all add: strip_both_def in_cut_set_def ascii_def)
  have pl: "payload b = [0, 120, 0]"
    unfolding b_def by (rule zeros_payload)
  have run: "gb_trim_string zeros_heap (Some 0) (ascii ''a'') = Inr (Some 0, zeros_heap(0 \<mapsto> b'))"
    unfolding b'_def b_def
    by (rule trim_live [where h = zeros_heap, OF zeros_heap_live zeros_block_ok])
  have "b' = string_block 1 3 [120]"
    unfolding b'_def pl strip lead
    apply (rule block.equality, simp_all add: b_def string_block_def)
    apply (rule ext, auto simp add: b_def string_block_def bytes_at_def nth_Cons')
    done
  then show ?thesis
    using run by (simp add: zeros_heap_def heap_of_def)
qed

lemma wrapped_numerals:
  "(18446744073709551617 :: gb_usize) = 1"
  "(18446744073709551618 :: gb_usize) = 2"
  by (simp_all add: word_eq_iff_unsigned [where ?'a = nat])

lemma alloc_at_ok: "allocator_ok (alloc_at (Suc n)) hello_heap"
  by (simp add: allocator_ok_def alloc_at_def hello_heap_live)

lemma hello_runs:
  "\<exists>h'. gb_make_string_length (alloc_at 3) Map.empty (Some (ascii ''Hello'')) 5 = Inr (Some 3, h')"
  "\<exists>h'. gb_append_string_length (alloc_at 1) hello_heap (Some 0) (ascii '', '') 2 = Inr (Some 1, h')"
  "\<exists>h'. gb_set_string (alloc_at 1) hello_heap (Some 0) (ascii ''Hello, world'') = Inr (Some 1, h')"
  "\<exists>h'. gb_string_make_space_for (alloc_at 1) hello_heap (Some 0) 3 = Inr (Some 1, h')"
proof -
  show "\<exists>h'. gb_make_string_length (alloc_at 3) Map.empty (Some (ascii ''Hello'')) 5 = Inr (Some 3, h')"
    using make_copies_post [where a = "alloc_at 3" and h = Map.empty and n = 5 and q = 3
        and g = junk and src = "ascii ''Hello''"]
    by (simp add: alloc_at_def ascii_def) blast
  have need: "\<not> (2 :: gb_usize) \<le> 5 - 5" "\<not> (3 :: gb_usize) \<le> 5 - 5" by simp_all
  show "\<exists>h'. gb_append_string_length (alloc_at 1) hello_heap (Some 0) (ascii '', '') 2 = Inr (Some 1, h')"
    using append_grows_post [where a = "alloc_at 1" and h = hello_heap and k = 2 and q = 1
        and g = junk and other = "ascii '', ''", OF hello_heap_live(1) hello_block_ok]
    by (simp add: alloc_at_def ascii_def string_block_def hello_heap_live) blast
  show "\<exists>h'. gb_set_string (alloc_at 1) hello_heap (Some 0) (ascii ''Hello, world'') = Inr (Some 1, h')"
    using set_string_grows_post [where a = "alloc_at 1" and h = hello_heap and q = 1
        and g = junk and cstr = "ascii ''Hello, world''", OF hello_heap_live(1) hello_block_ok]
    by (simp add: alloc_at_def ascii_def string_block_def hello_heap_live strlen_def) blast
  show "\<exists>h'. gb_string_make_space_for (alloc_at 1) hello_heap (Some 0) 3 = Inr (Some 1, h')"
    using make_space_grows_post [where a = "alloc_at 1" and h = hello_heap and add_len = 3 and q = 1
        and g = junk, OF hello_heap_live(1) hello_block_ok]
    by (simp add: alloc_at_def string_block_def hello_heap_live) blast
qed

section \<open>Appending nothing\<close>

text \<open>
  C10. Appending zero bytes to a well-formed string succeeds whatever the allocator
  would answer and whatever \<open>other\<close> points at: the handle that comes back is the one
  that went in, and the heap is the same, so no block was allocated or freed and the
  payload, the length and the capacity are what they were.
\<close>

theorem append_nothing:
  "gb_string_ok h str \<Longrightarrow> gb_append_string_length a h str other 0 = Inr (str, h)"
proof -
  assume "gb_string_ok h str"
  then obtain p b where str: "str = Some p" and hp: "h p = Some b" and ok: "block_ok b"
    by (auto simp add: gb_string_ok_iff)
  have zero: "chars b (unat (len (header b))) = 0"
    using ok by (simp add: block_ok_def)
  have "b\<lparr>header := (header b)\<lparr>len := len (header b) + 0\<rparr>,
       chars := (\<lambda>i. if unat (len (header b)) \<le> i \<and> i < unat (len (header b)) + unat (0 :: gb_usize)
                     then other ! (i - unat (len (header b)))
                     else if i = unat (len (header b)) + unat (0 :: gb_usize) then 0 else chars b i)\<rparr> = b"
    using zero by (intro block.equality) (auto simp add: fun_eq_iff)
  then show ?thesis
    using append_fits [where h = h and k = 0 and a = a and other = other, OF hp ok] hp
    by (simp add: str fun_upd_idem)
qed

theorem append_nothing_witness:
  "gb_string_ok hello_heap (Some 0) \<and>
   gb_append_string_length no_memory hello_heap (Some 0) [] 0 = Inr (Some 0, hello_heap)"
  using append_nothing [of hello_heap "Some 0" no_memory "[]"] hello_heap_ok by simp

section \<open>Allocation failure\<close>

text \<open>
  C3. Let \<open>str\<close> be a well-formed string with length \<open>n\<close>, capacity \<open>c\<close> and
  available space \<open>av\<close>. When \<^verbatim>\<open>gb_string_make_space_for\<close> has to allocate
  (\<open>av < add_len\<close>, and the new block size \<open>header_size + n + add_len + 1\<close> is a
  \<^verbatim>\<open>size_t\<close>) and the allocator refuses that request, reserve and append return the
  null handle and the heap they return is the heap they were given: the caller's
  block has its length, capacity and bytes and is still live. The same holds for
  \<^verbatim>\<open>gb_set_string\<close> when the new content is longer than the capacity. The caller can
  still release the string with \<^verbatim>\<open>gb_free_string\<close>, after which the handle dangles.
\<close>

theorem allocation_failure_keeps_buffer:
  assumes ok: "gb_string_ok h str"
    and n: "gb_string_length h str = Inr n"
    and c: "gb_string_capacity h str = Inr c"
    and av: "gb_string_available_space h str = Inr av"
  shows "(av < add_len \<and> unat n + unat add_len + 17 < 2 ^ 64 \<and>
          a h (header_size + (n + add_len) + 1) = None \<longrightarrow>
            gb_string_make_space_for a h str add_len = Inr (None, h) \<and>
            gb_append_string_length a h str other add_len = Inr (None, h)) \<and>
         (c < strlen cstr \<and> unat (strlen cstr) + 17 < 2 ^ 64 \<and>
          a h (header_size + strlen cstr + 1) = None \<longrightarrow>
            gb_set_string a h str cstr = Inr (None, h)) \<and>
         (\<exists>h'. gb_free_string h str = Inr h' \<and> deref h' str = Inl DanglingPointer)"
proof -
  from ok obtain p b where str: "str = Some p" and hp: "h p = Some b" and bok: "block_ok b"
    and obs: "gb_string_length h str = Inr (len (header b))"
      "gb_string_capacity h str = Inr (cap (header b))"
      "gb_string_available_space h str = Inr (cap (header b) - len (header b))"
    by (rule observed)
  have eq: "n = len (header b)" "c = cap (header b)" "av = cap (header b) - len (header b)"
    using n c av obs by simp_all
  have free: "gb_free_string h str = Inr (h(p := None))"
    using hp by (simp add: gb_free_string_def GB_FREE_def str)
  show ?thesis
    unfolding eq str
    using make_space_no_memory [where h = h and a = a and add_len = add_len, OF hp bok]
      append_no_memory [where h = h and a = a and k = add_len and other = other, OF hp bok]
      set_string_no_memory [where h = h and a = a and cstr = cstr, OF hp bok]
      free
    by (auto simp add: str deref_def)
qed

theorem allocation_failure_keeps_buffer_witness:
  "gb_string_ok hello_heap (Some 0) \<and>
   gb_string_make_space_for no_memory hello_heap (Some 0) 3 = Inr (None, hello_heap) \<and>
   gb_append_string_length no_memory hello_heap (Some 0) (ascii ''abc'') 3 = Inr (None, hello_heap) \<and>
   gb_set_string no_memory hello_heap (Some 0) (ascii ''Hello, world'') = Inr (None, hello_heap)"
  using allocation_failure_keeps_buffer [OF hello_heap_ok hello_heap_obs,
      of 3 no_memory "ascii ''abc''" "ascii ''Hello, world''"] hello_heap_ok
  by (simp add: no_memory_def strlen_def ascii_def)

section \<open>Reserve\<close>

text \<open>
  C2 as the claim states it fails where the sum \<open>length + additional\<close> leaves
  \<^verbatim>\<open>size_t\<close>: the well-formed \<^verbatim>\<open>"Hello"\<close> (length 5, capacity 5, nothing available)
  asked for \<open>2^64 - 1\<close> more bytes comes back non-null with capacity 4. The new length
  wraps to 4, the new block size is smaller than the old one, \<^verbatim>\<open>gb__string_realloc\<close>
  keeps the block, and the wrapped length is stored as the capacity.
\<close>

theorem reserve_wraps_capacity:
  "gb_string_ok hello_heap (Some 0) \<and>
   gb_string_length hello_heap (Some 0) = Inr 5 \<and>
   gb_string_available_space hello_heap (Some 0) = Inr 0 \<and>
   gb_string_make_space_for (alloc_at 1) hello_heap (Some 0) 18446744073709551615 =
     Inr (Some 0, hello_heap(0 \<mapsto> (string_block 5 5 (ascii ''Hello''))\<lparr>header := \<lparr>len = 5, cap = 4\<rparr>\<rparr>)) \<and>
   gb_string_capacity
     (hello_heap(0 \<mapsto> (string_block 5 5 (ascii ''Hello''))\<lparr>header := \<lparr>len = 5, cap = 4\<rparr>\<rparr>)) (Some 0) =
     Inr 4 \<and>
   unat (4 :: gb_usize) \<noteq> unat (5 :: gb_usize) + unat (18446744073709551615 :: gb_usize)"
proof -
  have "gb_string_make_space_for (alloc_at 1) hello_heap (Some 0) 18446744073709551615 =
     Inr (Some 0, hello_heap(0 \<mapsto> (string_block 5 5 (ascii ''Hello''))\<lparr>header := \<lparr>len = 5, cap = 4\<rparr>\<rparr>))"
    using make_space_wraps [where h = hello_heap and a = "alloc_at 1"
        and add_len = 18446744073709551615, OF hello_heap_live(1) hello_block_ok]
    by (simp add: string_block_def size_max_wraps)
  moreover have "gb_string_capacity
     (hello_heap(0 \<mapsto> (string_block 5 5 (ascii ''Hello''))\<lparr>header := \<lparr>len = 5, cap = 4\<rparr>\<rparr>)) (Some 0) =
     Inr 4"
    by (simp add: gb_string_capacity_def GB_STRING_HEADER_def string_block_def header_size_def)
  ultimately show ?thesis
    using hello_heap_ok hello_heap_obs by simp
qed

text \<open>
  C2, amended. For a well-formed string with length \<open>n\<close>, available space \<open>av\<close> and
  payload \<open>bs\<close>: when \<open>add_len \<le> av\<close>, reserve returns the same handle and the same
  heap, whatever the allocator would answer. Otherwise, when
  \<open>header_size + n + add_len + 1\<close> is a \<^verbatim>\<open>size_t\<close> and the allocator grants the request
  for exactly that many bytes at an unused address \<open>q\<close>, reserve returns the handle of
  the new block, which is well-formed, has capacity exactly \<open>n + add_len\<close>, length
  \<open>n\<close> and payload \<open>bs\<close>, and the old block is freed.
\<close>

theorem reserve_exact:
  assumes ok: "gb_string_ok h str"
    and n: "gb_string_length h str = Inr n"
    and av: "gb_string_available_space h str = Inr av"
    and bs: "contents h str = Inr bs"
  shows "(add_len \<le> av \<longrightarrow> gb_string_make_space_for a h str add_len = Inr (str, h)) \<and>
     (av < add_len \<and> unat n + unat add_len + 17 < 2 ^ 64 \<and>
      a h (header_size + (n + add_len) + 1) = Some (q, g) \<and> h q = None \<longrightarrow>
        (\<exists>h'. gb_string_make_space_for a h str add_len = Inr (Some q, h') \<and>
           gb_string_ok h' (Some q) \<and>
           gb_string_capacity h' (Some q) = Inr (n + add_len) \<and>
           unat (n + add_len) = unat n + unat add_len \<and>
           gb_string_length h' (Some q) = Inr n \<and>
           contents h' (Some q) = Inr bs \<and>
           deref h' str = Inl DanglingPointer))"
proof -
  from ok obtain p b where str: "str = Some p" and hp: "h p = Some b" and bok: "block_ok b"
    and obs: "gb_string_length h str = Inr (len (header b))"
      "gb_string_available_space h str = Inr (cap (header b) - len (header b))"
      "contents h str = Inr (payload b)"
    by (rule observed)
  have eq: "n = len (header b)" "av = cap (header b) - len (header b)" "bs = payload b"
    using n av bs obs by simp_all
  have fit: "add_len \<le> av \<longrightarrow> gb_string_make_space_for a h str add_len = Inr (str, h)"
    unfolding eq str using make_space_fits [where h = h, OF hp bok] by simp
  have grow: "\<exists>h'. gb_string_make_space_for a h str add_len = Inr (Some q, h') \<and>
           gb_string_ok h' (Some q) \<and>
           gb_string_capacity h' (Some q) = Inr (n + add_len) \<and>
           unat (n + add_len) = unat n + unat add_len \<and>
           gb_string_length h' (Some q) = Inr n \<and>
           contents h' (Some q) = Inr bs \<and>
           deref h' str = Inl DanglingPointer"
    if need: "av < add_len" and fits: "unat n + unat add_len + 17 < 2 ^ 64"
      and got: "a h (header_size + (n + add_len) + 1) = Some (q, g)" and fresh: "h q = None"
  proof -
    have need': "\<not> add_len \<le> cap (header b) - len (header b)"
      using need by (simp add: eq)
    have qp: "q \<noteq> p" using hp fresh by auto
    from make_space_grows_post [where h = h and a = a, OF hp bok need'
        fits [unfolded eq] got [unfolded eq] fresh]
    obtain b' where run: "gb_string_make_space_for a h (Some p) add_len =
          Inr (Some q, (h(p := None))(q \<mapsto> b'))"
      and ok': "block_ok b'" and l: "len (header b') = len (header b)"
      and c: "cap (header b') = len (header b) + add_len"
      and u: "unat (len (header b) + add_len) = unat (len (header b)) + unat add_len"
      and pl: "payload b' = payload b"
      by blast
    have hq: "((h(p := None))(q \<mapsto> b')) q = Some b'" by simp
    show ?thesis
      using run observe [where h = "(h(p := None))(q \<mapsto> b')", OF hq ok'] qp
      by (intro exI [of _ "(h(p := None))(q \<mapsto> b')"])
        (simp add: str eq l c u pl deref_def)
  qed
  show ?thesis using fit grow by blast
qed

theorem reserve_exact_witness:
  "gb_string_make_space_for no_memory spare_heap (Some 0) 3 = Inr (Some 0, spare_heap) \<and>
   (\<exists>h'. gb_string_make_space_for (alloc_at 1) hello_heap (Some 0) 3 = Inr (Some 1, h') \<and>
      gb_string_ok h' (Some 1) \<and>
      gb_string_capacity h' (Some 1) = Inr 8 \<and>
      gb_string_length h' (Some 1) = Inr 5 \<and>
      contents h' (Some 1) = Inr (ascii ''Hello'') \<and>
      deref h' (Some 0) = Inl DanglingPointer)"
  using reserve_exact [OF spare_heap_ok spare_heap_obs(1,3,4), of 3 no_memory]
    reserve_exact [OF hello_heap_ok hello_heap_obs(1,3) hello_heap_contents, of 3 "alloc_at 1" 1 junk]
  by (simp add: alloc_at_def hello_heap_live)

section \<open>Construction\<close>

text \<open>
  C4 as the claim states it fails for a null source and \<open>len = SIZE_MAX\<close>, where the
  block size \<open>header_size + len + 1\<close> wraps to 16. The allocation of 16 bytes succeeds,
  \<^verbatim>\<open>memset\<close> clears them, both header fields are set to \<open>SIZE_MAX\<close>, and the terminator
  \<^verbatim>\<open>str[len]\<close>, which is \<^verbatim>\<open>str[-1]\<close>, is written over the last byte of \<open>cap\<close>. The call
  returns a live handle to a block that has no characters at all, with length
  \<open>2^64 - 1\<close> and capacity \<open>2^56 - 1\<close>: the capacity is not the length, and there is no
  zero-filled payload region of \<open>len\<close> bytes.
\<close>

theorem make_wraps_block_size:
  "header_size + 18446744073709551615 + 1 = (16 :: gb_usize) \<and>
   alloc_at 1 Map.empty (header_size + 18446744073709551615 + 1) = Some (1, junk) \<and>
   gb_make_string_length (alloc_at 1) Map.empty None 18446744073709551615 =
     Inr (Some 1, heap_of 1 \<lparr>bsize = 16,
       header = \<lparr>len = 18446744073709551615, cap = 72057594037927935\<rparr>, chars = chars junk\<rparr>) \<and>
   gb_string_length (heap_of 1 \<lparr>bsize = 16,
       header = \<lparr>len = 18446744073709551615, cap = 72057594037927935\<rparr>, chars = chars junk\<rparr>)
     (Some 1) = Inr 18446744073709551615 \<and>
   gb_string_capacity (heap_of 1 \<lparr>bsize = 16,
       header = \<lparr>len = 18446744073709551615, cap = 72057594037927935\<rparr>, chars = chars junk\<rparr>)
     (Some 1) = Inr 72057594037927935 \<and>
   (72057594037927935 :: gb_usize) \<noteq> 18446744073709551615"
proof -
  have sz: "header_size + 18446744073709551615 + 1 = (16 :: gb_usize)"
    by (simp add: header_size_def)
  have ne: "(72057594037927935 :: gb_usize) \<noteq> 18446744073709551615"
    by (simp add: word_eq_iff_unsigned [where ?'a = nat] unat_size_max)
  show ?thesis
    using sz ne make_size_max
    by (simp add: alloc_at_def heap_of_def gb_string_length_def gb_string_capacity_def
        GB_STRING_HEADER_def header_size_def)
qed

text \<open>
  C4, amended. Let the block size \<open>header_size + n + 1\<close> be a \<^verbatim>\<open>size_t\<close> and let
  the allocator grant the request for exactly that many bytes at address \<open>q\<close>. For
  every byte sequence \<open>bs\<close> of length \<open>n\<close>, \<^verbatim>\<open>gb_make_string_length(bs, n)\<close> returns
  the handle of a well-formed string with length \<open>n\<close>, capacity \<open>n\<close>, payload \<open>bs\<close> and a
  zero at offset \<open>n\<close>; with a null source the payload is \<open>n\<close> zero bytes.
\<close>

theorem make_round_trip:
  assumes got: "a h (header_size + n + 1) = Some (q, g)"
    and fits: "unat n + 17 < 2 ^ 64"
  shows "(length bs = unat n \<longrightarrow>
       (\<exists>h'. gb_make_string_length a h (Some bs) n = Inr (Some q, h') \<and>
          gb_string_ok h' (Some q) \<and>
          gb_string_length h' (Some q) = Inr n \<and>
          gb_string_capacity h' (Some q) = Inr n \<and>
          contents h' (Some q) = Inr bs \<and>
          char_at h' (Some q) n = Inr 0)) \<and>
     (\<exists>h'. gb_make_string_length a h None n = Inr (Some q, h') \<and>
          gb_string_ok h' (Some q) \<and>
          gb_string_length h' (Some q) = Inr n \<and>
          gb_string_capacity h' (Some q) = Inr n \<and>
          contents h' (Some q) = Inr (replicate (unat n) 0) \<and>
          char_at h' (Some q) n = Inr 0)"
proof (intro conjI impI)
  assume lb: "length bs = unat n"
  from make_copies_post [where h = h and a = a and src = bs, OF got fits] lb
  obtain b' where run: "gb_make_string_length a h (Some bs) n = Inr (Some q, h(q \<mapsto> b'))"
    and ok': "block_ok b'" and l: "len (header b') = n" and c: "cap (header b') = n"
    and pl: "payload b' = take (unat n) bs"
    by auto
  have hq: "(h(q \<mapsto> b')) q = Some b'" by simp
  show "\<exists>h'. gb_make_string_length a h (Some bs) n = Inr (Some q, h') \<and>
          gb_string_ok h' (Some q) \<and>
          gb_string_length h' (Some q) = Inr n \<and>
          gb_string_capacity h' (Some q) = Inr n \<and>
          contents h' (Some q) = Inr bs \<and>
          char_at h' (Some q) n = Inr 0"
    using run observe [where h = "h(q \<mapsto> b')", OF hq ok'] lb
    by (intro exI [of _ "h(q \<mapsto> b')"]) (simp add: l c pl)
next
  from make_zeroes_post [where h = h and a = a, OF got fits]
  obtain b' where run: "gb_make_string_length a h None n = Inr (Some q, h(q \<mapsto> b'))"
    and ok': "block_ok b'" and l: "len (header b') = n" and c: "cap (header b') = n"
    and pl: "payload b' = replicate (unat n) 0"
    by auto
  have hq: "(h(q \<mapsto> b')) q = Some b'" by simp
  show "\<exists>h'. gb_make_string_length a h None n = Inr (Some q, h') \<and>
          gb_string_ok h' (Some q) \<and>
          gb_string_length h' (Some q) = Inr n \<and>
          gb_string_capacity h' (Some q) = Inr n \<and>
          contents h' (Some q) = Inr (replicate (unat n) 0) \<and>
          char_at h' (Some q) n = Inr 0"
    using run observe [where h = "h(q \<mapsto> b')", OF hq ok']
    by (intro exI [of _ "h(q \<mapsto> b')"]) (simp add: l c pl)
qed

theorem make_round_trip_witness:
  "(\<exists>h'. gb_make_string_length (alloc_at 3) Map.empty (Some (ascii ''Hello'')) 5 = Inr (Some 3, h') \<and>
      gb_string_ok h' (Some 3) \<and>
      gb_string_length h' (Some 3) = Inr 5 \<and>
      gb_string_capacity h' (Some 3) = Inr 5 \<and>
      contents h' (Some 3) = Inr (ascii ''Hello'') \<and>
      char_at h' (Some 3) 5 = Inr 0) \<and>
   (\<exists>h'. gb_make_string_length (alloc_at 3) Map.empty None 5 = Inr (Some 3, h') \<and>
      gb_string_ok h' (Some 3) \<and>
      gb_string_length h' (Some 3) = Inr 5 \<and>
      gb_string_capacity h' (Some 3) = Inr 5 \<and>
      contents h' (Some 3) = Inr [0, 0, 0, 0, 0] \<and>
      char_at h' (Some 3) 5 = Inr 0)"
proof -
  have five: "replicate 5 (0 :: byte) = [0, 0, 0, 0, 0]"
    by (simp add: numeral_eq_Suc)
  show ?thesis
    using make_round_trip [of "alloc_at 3" Map.empty 5 3 junk "ascii ''Hello''"]
    by (simp add: alloc_at_def ascii_def five)
qed

section \<open>Assignment\<close>

text \<open>
  C6. Let \<open>str\<close> be a well-formed string with length \<open>n\<close> and capacity \<open>c\<close>, and
  \<open>cstr\<close> a C string (one that fits into the address space next to a header and a
  terminator). When \<open>c\<close> is not smaller than \<open>strlen cstr\<close>, \<^verbatim>\<open>gb_set_string\<close>
  succeeds whatever the allocator would answer, on the same handle, and the capacity
  stays \<open>c\<close>, also when the new content is shorter than the old one. When \<open>c\<close> is
  smaller, the reserve call for \<open>strlen cstr - n\<close> more bytes asks the allocator for
  \<open>header_size + strlen cstr + 1\<close> bytes and gives capacity \<open>strlen cstr\<close>, which is
  larger than \<open>c\<close>. In both cases the result is well-formed, its payload is the bytes
  of \<open>cstr\<close> up to its terminator, its length is \<open>strlen cstr\<close>, and the character
  at that offset is zero.
\<close>

theorem assign_result:
  assumes ok: "gb_string_ok h str"
    and n: "gb_string_length h str = Inr n"
    and c: "gb_string_capacity h str = Inr c"
    and real: "strlen_nat cstr + 17 < 2 ^ 64"
  shows "(\<not> c < strlen cstr \<longrightarrow>
       (\<exists>h'. gb_set_string a h str cstr = Inr (str, h') \<and>
          gb_string_ok h' str \<and>
          gb_string_length h' str = Inr (strlen cstr) \<and>
          contents h' str = Inr (takeWhile (\<lambda>x. x \<noteq> 0) cstr) \<and>
          char_at h' str (strlen cstr) = Inr 0 \<and>
          gb_string_capacity h' str = Inr c)) \<and>
     (c < strlen cstr \<and> a h (header_size + strlen cstr + 1) = Some (q, g) \<and> h q = None \<longrightarrow>
       (\<exists>h1. gb_string_make_space_for a h str (strlen cstr - n) = Inr (Some q, h1) \<and>
          gb_string_capacity h1 (Some q) = Inr (strlen cstr)) \<and>
       (\<exists>h'. gb_set_string a h str cstr = Inr (Some q, h') \<and>
          gb_string_ok h' (Some q) \<and>
          gb_string_length h' (Some q) = Inr (strlen cstr) \<and>
          contents h' (Some q) = Inr (takeWhile (\<lambda>x. x \<noteq> 0) cstr) \<and>
          char_at h' (Some q) (strlen cstr) = Inr 0 \<and>
          gb_string_capacity h' (Some q) = Inr (strlen cstr)))"
proof -
  from ok obtain p b where str: "str = Some p" and hp: "h p = Some b" and bok: "block_ok b"
    and obs: "gb_string_length h str = Inr (len (header b))"
      "gb_string_capacity h str = Inr (cap (header b))"
    by (rule observed)
  have eq: "n = len (header b)" "c = cap (header b)"
    using n c obs by simp_all
  have real': "strlen_nat cstr < 2 ^ 64" using real by simp
  have fits: "unat (strlen cstr) + 17 < 2 ^ 64"
    using real by (simp add: unat_strlen [OF real'])
  have fit: "\<exists>h'. gb_set_string a h str cstr = Inr (str, h') \<and>
          gb_string_ok h' str \<and>
          gb_string_length h' str = Inr (strlen cstr) \<and>
          contents h' str = Inr (takeWhile (\<lambda>x. x \<noteq> 0) cstr) \<and>
          char_at h' str (strlen cstr) = Inr 0 \<and>
          gb_string_capacity h' str = Inr c"
    if le: "\<not> c < strlen cstr"
  proof -
    from set_string_fits_post [where h = h and a = a, OF hp bok le [unfolded eq] real']
    obtain b' where run: "gb_set_string a h (Some p) cstr = Inr (Some p, h(p \<mapsto> b'))"
      and ok': "block_ok b'" and l: "len (header b') = strlen cstr"
      and c': "cap (header b') = cap (header b)"
      and pl: "payload b' = takeWhile (\<lambda>c. c \<noteq> 0) cstr"
      by blast
    have hq: "(h(p \<mapsto> b')) p = Some b'" by simp
    show ?thesis
      using run observe [where h = "h(p \<mapsto> b')", OF hq ok']
      by (intro exI [of _ "h(p \<mapsto> b')"]) (simp add: str eq l c' pl)
  qed
  have grow: "(\<exists>h1. gb_string_make_space_for a h str (strlen cstr - n) = Inr (Some q, h1) \<and>
          gb_string_capacity h1 (Some q) = Inr (strlen cstr)) \<and>
       (\<exists>h'. gb_set_string a h str cstr = Inr (Some q, h') \<and>
          gb_string_ok h' (Some q) \<and>
          gb_string_length h' (Some q) = Inr (strlen cstr) \<and>
          contents h' (Some q) = Inr (takeWhile (\<lambda>x. x \<noteq> 0) cstr) \<and>
          char_at h' (Some q) (strlen cstr) = Inr 0 \<and>
          gb_string_capacity h' (Some q) = Inr (strlen cstr))"
    if need: "c < strlen cstr" and got: "a h (header_size + strlen cstr + 1) = Some (q, g)"
      and fresh: "h q = None"
  proof
    note sn = set_string_need [OF bok need [unfolded eq] fits]
    have got': "a h (header_size + (len (header b) + (strlen cstr - len (header b))) + 1) = Some (q, g)"
      using got by (simp only: sn(3))
    from make_space_grows_post [where h = h and a = a, OF hp bok sn(1,2) got' fresh]
    obtain b1 where run1: "gb_string_make_space_for a h (Some p) (strlen cstr - len (header b)) =
          Inr (Some q, (h(p := None))(q \<mapsto> b1))"
      and ok1: "block_ok b1"
      and c1: "cap (header b1) = len (header b) + (strlen cstr - len (header b))"
      by blast
    have hq1: "((h(p := None))(q \<mapsto> b1)) q = Some b1" by simp
    show "\<exists>h1. gb_string_make_space_for a h str (strlen cstr - n) = Inr (Some q, h1) \<and>
          gb_string_capacity h1 (Some q) = Inr (strlen cstr)"
      using run1 observe(3) [where h = "(h(p := None))(q \<mapsto> b1)", OF hq1 ok1]
      by (intro exI [of _ "(h(p := None))(q \<mapsto> b1)"]) (simp add: str eq c1)
    from set_string_grows_post [where h = h and a = a, OF hp bok need [unfolded eq] real got fresh]
    obtain b' where run: "gb_set_string a h (Some p) cstr = Inr (Some q, (h(p := None))(q \<mapsto> b'))"
      and ok': "block_ok b'" and l: "len (header b') = strlen cstr"
      and c': "cap (header b') = strlen cstr"
      and pl: "payload b' = takeWhile (\<lambda>c. c \<noteq> 0) cstr"
      by blast
    have hq: "((h(p := None))(q \<mapsto> b')) q = Some b'" by simp
    show "\<exists>h'. gb_set_string a h str cstr = Inr (Some q, h') \<and>
          gb_string_ok h' (Some q) \<and>
          gb_string_length h' (Some q) = Inr (strlen cstr) \<and>
          contents h' (Some q) = Inr (takeWhile (\<lambda>x. x \<noteq> 0) cstr) \<and>
          char_at h' (Some q) (strlen cstr) = Inr 0 \<and>
          gb_string_capacity h' (Some q) = Inr (strlen cstr)"
      using run observe [where h = "(h(p := None))(q \<mapsto> b')", OF hq ok']
      by (intro exI [of _ "(h(p := None))(q \<mapsto> b')"]) (simp add: str l c' pl)
  qed
  show ?thesis using fit grow by blast
qed

theorem assign_result_witness:
  "(\<exists>h'. gb_set_string no_memory hello_heap (Some 0) (ascii ''Hi'') = Inr (Some 0, h') \<and>
      gb_string_ok h' (Some 0) \<and>
      gb_string_length h' (Some 0) = Inr 2 \<and>
      contents h' (Some 0) = Inr (ascii ''Hi'') \<and>
      char_at h' (Some 0) 2 = Inr 0 \<and>
      gb_string_capacity h' (Some 0) = Inr 5) \<and>
   (\<exists>h1. gb_string_make_space_for (alloc_at 1) hello_heap (Some 0) 7 = Inr (Some 1, h1) \<and>
      gb_string_capacity h1 (Some 1) = Inr 12) \<and>
   (\<exists>h'. gb_set_string (alloc_at 1) hello_heap (Some 0) (ascii ''Hello, world'') = Inr (Some 1, h') \<and>
      gb_string_ok h' (Some 1) \<and>
      gb_string_length h' (Some 1) = Inr 12 \<and>
      contents h' (Some 1) = Inr (ascii ''Hello, world'') \<and>
      char_at h' (Some 1) 12 = Inr 0 \<and>
      gb_string_capacity h' (Some 1) = Inr 12)"
  using assign_result [OF hello_heap_ok hello_heap_obs(1,2), of "ascii ''Hi''" no_memory]
    assign_result [OF hello_heap_ok hello_heap_obs(1,2), of "ascii ''Hello, world''" "alloc_at 1" 1 junk]
  by (simp add: alloc_at_def hello_heap_live strlen_def ascii_def)

section \<open>Trimming\<close>

text \<open>
  C5 as the claim states it fails for a payload with a zero byte at either end. The
  test that \<^verbatim>\<open>gb_trim_string\<close> makes for a byte \<open>c\<close> is \<^verbatim>\<open>strchr(cut_set, c)\<close>, and
  \<^verbatim>\<open>strchr\<close> finds the terminator of \<^verbatim>\<open>cut_set\<close> when \<open>c\<close> is zero. The payload
  \<open>0, 'x', 0\<close> trimmed with the cut set \<^verbatim>\<open>"a"\<close> has no leading and no trailing run of
  cut-set bytes, so the claim leaves it as it is; the code returns \<^verbatim>\<open>"x"\<close> with length 1.
\<close>

theorem trim_cuts_unlisted_zero:
  "gb_string_ok zeros_heap (Some 0) \<and>
   contents zeros_heap (Some 0) = Inr [0, 120, 0] \<and>
   \<not> member_of_cut_set (ascii ''a'') 0 \<and>
   \<not> member_of_cut_set (ascii ''a'') 120 \<and>
   strip_both (member_of_cut_set (ascii ''a'')) [0, 120, 0] = [0, 120, 0] \<and>
   gb_trim_string zeros_heap (Some 0) (ascii ''a'') =
     Inr (Some 0, heap_of 0 (string_block 1 3 [120])) \<and>
   contents (heap_of 0 (string_block 1 3 [120])) (Some 0) = Inr [120] \<and>
   gb_string_length (heap_of 0 (string_block 1 3 [120])) (Some 0) = Inr 1"
proof -
  have "contents (heap_of 0 (string_block 1 3 [120])) (Some 0) = Inr [120]"
    by (simp add: contents_def heap_of_def payload_string_block)
  moreover have "gb_string_length (heap_of 0 (string_block 1 3 [120])) (Some 0) = Inr 1"
    by (simp add: gb_string_length_def GB_STRING_HEADER_def heap_of_def string_block_def
        header_size_def)
  moreover have "strip_both (member_of_cut_set (ascii ''a'')) [0, 120, 0] = [0, 120, 0]"
    by (simp add: strip_both_def member_of_cut_set_def ascii_def)
  ultimately show ?thesis
    using zeros_heap_ok zeros_heap_contents zeros_trimmed
    by (simp add: member_of_cut_set_def ascii_def)
qed

text \<open>
  C5, amended. The test that \<^verbatim>\<open>gb_trim_string\<close> makes for a byte \<open>x\<close>,
  \<^verbatim>\<open>strchr(cut_set, x)\<close>, succeeds exactly when \<open>x\<close> is zero or one of the bytes of
  \<^verbatim>\<open>cut_set\<close> (\<open>cut_or_zero\<close>). For a well-formed string with block \<open>b\<close>, payload \<open>xs\<close> and
  capacity \<open>c\<close>: the start cursor stops behind the longest prefix of \<open>xs\<close> whose bytes
  are zero or in the cut set, the end cursor stops at the last byte of what
  \<open>strip_both\<close> leaves (one before the start cursor when nothing is left), and
  \<^verbatim>\<open>gb_trim_string\<close> returns the same handle to a well-formed string whose payload is
  \<open>xs\<close> without its longest prefix and its longest suffix of such bytes. That payload
  is the span of \<open>xs\<close> at the start cursor, now at offset 0; the length is its size, 0
  when every byte of \<open>xs\<close> is zero or in the cut set, or \<open>xs\<close> is empty; a zero follows
  it; the capacity is still \<open>c\<close>. On the payload \<^verbatim>\<open>"Ab.;!...AHello World       ??"\<close> with
  the cut set \<^verbatim>\<open>"Ab.;!. ?"\<close> the result is \<^verbatim>\<open>"Hello World"\<close> with length 11.
\<close>

theorem trim_result:
  "(strchr cut_set x \<noteq> None \<longleftrightarrow> cut_or_zero cut_set x) \<and>
   (gb_string_ok h str \<and> deref h str = Inr b \<and> contents h str = Inr xs \<and>
    gb_string_capacity h str = Inr c \<longrightarrow>
      trim_start b cut_set 0 (uint (len (header b)) - 1) =
        Inr (int (length (takeWhile (cut_or_zero cut_set) xs))) \<and>
      trim_end b cut_set (int (length (takeWhile (cut_or_zero cut_set) xs)))
          (uint (len (header b)) - 1) =
        Inr (int (length (takeWhile (cut_or_zero cut_set) xs)) +
             int (length (strip_both (cut_or_zero cut_set) xs)) - 1) \<and>
      (\<exists>h'. gb_trim_string h str cut_set = Inr (str, h') \<and>
         gb_string_ok h' str \<and>
         contents h' str = Inr (strip_both (cut_or_zero cut_set) xs) \<and>
         strip_both (cut_or_zero cut_set) xs =
           take (length (strip_both (cut_or_zero cut_set) xs))
             (drop (length (takeWhile (cut_or_zero cut_set) xs)) xs) \<and>
         gb_string_length h' str = Inr (of_nat (length (strip_both (cut_or_zero cut_set) xs))) \<and>
         (list_all (cut_or_zero cut_set) xs \<longrightarrow> gb_string_length h' str = Inr 0) \<and>
         char_at h' str (of_nat (length (strip_both (cut_or_zero cut_set) xs))) = Inr 0 \<and>
         gb_string_capacity h' str = Inr c)) \<and>
   (\<exists>h'. gb_trim_string padded_heap (Some 0) (ascii ''Ab.;!. ?'') = Inr (Some 0, h') \<and>
      contents h' (Some 0) = Inr (ascii ''Hello World'') \<and>
      gb_string_length h' (Some 0) = Inr 11)"
proof (intro conjI impI)
  show "strchr cut_set x \<noteq> None \<longleftrightarrow> cut_or_zero cut_set x"
    by (simp add: cut_or_zero_eq in_cut_set_def)
next
  from trim_post [where h = padded_heap and cut_set = "ascii ''Ab.;!. ?''",
      OF padded_heap_live padded_block_ok]
  obtain b' where run: "gb_trim_string padded_heap (Some 0) (ascii ''Ab.;!. ?'') =
        Inr (Some 0, padded_heap(0 \<mapsto> b'))"
    and ok': "block_ok b'"
    and l: "len (header b') = of_nat (length (ascii ''Hello World''))"
    and pl: "payload b' = ascii ''Hello World''"
    by (auto simp only: padded_payload padded_strip)
  have hq: "(padded_heap(0 \<mapsto> b')) 0 = Some b'" by simp
  show "\<exists>h'. gb_trim_string padded_heap (Some 0) (ascii ''Ab.;!. ?'') = Inr (Some 0, h') \<and>
      contents h' (Some 0) = Inr (ascii ''Hello World'') \<and>
      gb_string_length h' (Some 0) = Inr 11"
    using run observe(2,5) [where h = "padded_heap(0 \<mapsto> b')", OF hq ok']
    by (intro exI [of _ "padded_heap(0 \<mapsto> b')"]) (simp add: l pl, simp add: ascii_def)
next
  assume a: "gb_string_ok h str \<and> deref h str = Inr b \<and> contents h str = Inr xs \<and>
    gb_string_capacity h str = Inr c"
  then obtain p where str: "str = Some p" and hp: "h p = Some b" and bok: "block_ok b"
    by (auto simp add: gb_string_ok_iff)
  have xs: "xs = payload b" and c: "c = cap (header b)"
    using a observe(3,5) [where h = h, OF hp bok] by (simp_all add: str)
  have room: "unat (len (header b)) + 16 \<le> unat (bsize b)"
    using block_ok_bounds(1,2) [OF bok] by linarith
  note cur = trim_cursors [OF room, of cut_set, folded payload_def, folded xs]
  have u: "uint (len (header b)) = int (unat (len (header b)))" by simp
  show "trim_start b cut_set 0 (uint (len (header b)) - 1) =
        Inr (int (length (takeWhile (cut_or_zero cut_set) xs)))"
    unfolding u cut_or_zero_eq by (rule cur(1))
  show "trim_end b cut_set (int (length (takeWhile (cut_or_zero cut_set) xs)))
          (uint (len (header b)) - 1) =
        Inr (int (length (takeWhile (cut_or_zero cut_set) xs)) +
             int (length (strip_both (cut_or_zero cut_set) xs)) - 1)"
    unfolding u cut_or_zero_eq by (rule cur(2))
  from trim_post [where h = h and cut_set = cut_set, OF hp bok]
  obtain b' where run: "gb_trim_string h (Some p) cut_set = Inr (Some p, h(p \<mapsto> b'))"
    and ok': "block_ok b'"
    and l: "len (header b') = of_nat (length (strip_both (in_cut_set cut_set) xs))"
    and c': "cap (header b') = cap (header b)"
    and pl: "payload b' = strip_both (in_cut_set cut_set) xs"
    unfolding xs by blast
  have hq: "(h(p \<mapsto> b')) p = Some b'" by simp
  have all: "strip_both (in_cut_set cut_set) xs = []" if "list_all (in_cut_set cut_set) xs"
  proof -
    have d: "dropWhile (in_cut_set cut_set) xs = []"
      using that by (simp add: list_all_iff)
    show ?thesis unfolding strip_both_def d by simp
  qed
  show "\<exists>h'. gb_trim_string h str cut_set = Inr (str, h') \<and>
         gb_string_ok h' str \<and>
         contents h' str = Inr (strip_both (cut_or_zero cut_set) xs) \<and>
         strip_both (cut_or_zero cut_set) xs =
           take (length (strip_both (cut_or_zero cut_set) xs))
             (drop (length (takeWhile (cut_or_zero cut_set) xs)) xs) \<and>
         gb_string_length h' str = Inr (of_nat (length (strip_both (cut_or_zero cut_set) xs))) \<and>
         (list_all (cut_or_zero cut_set) xs \<longrightarrow> gb_string_length h' str = Inr 0) \<and>
         char_at h' str (of_nat (length (strip_both (cut_or_zero cut_set) xs))) = Inr 0 \<and>
         gb_string_capacity h' str = Inr c"
    unfolding cut_or_zero_eq
    using run observe [where h = "h(p \<mapsto> b')", OF hq ok']
      strip_both_take [of "in_cut_set cut_set" xs] all
    by (intro exI [of _ "h(p \<mapsto> b')"]) (auto simp add: str l c c' pl)
qed

theorem trim_result_witness:
  "strchr (ascii ''Ab.;!. ?'') 33 \<noteq> None \<and>
   strchr (ascii ''Ab.;!. ?'') 0 \<noteq> None \<and>
   strchr (ascii ''Ab.;!. ?'') 72 = None \<and>
   trim_start (string_block 29 29 (ascii ''Ab.;!...AHello World       ??'')) (ascii ''Ab.;!. ?'') 0 28 =
     Inr 9 \<and>
   trim_end (string_block 29 29 (ascii ''Ab.;!...AHello World       ??'')) (ascii ''Ab.;!. ?'') 9 28 =
     Inr 19 \<and>
   (\<exists>h'. gb_trim_string padded_heap (Some 0) (ascii ''Ab.;!. ?'') = Inr (Some 0, h') \<and>
      gb_string_ok h' (Some 0) \<and>
      contents h' (Some 0) = Inr (ascii ''Hello World'') \<and>
      gb_string_length h' (Some 0) = Inr 11 \<and>
      char_at h' (Some 0) 11 = Inr 0 \<and>
      gb_string_capacity h' (Some 0) = Inr 29) \<and>
   (\<exists>h'. gb_trim_string hello_heap (Some 0) (ascii ''Helo'') = Inr (Some 0, h') \<and>
      gb_string_length h' (Some 0) = Inr 0 \<and>
      gb_string_capacity h' (Some 0) = Inr 5)"
proof -
  have eleven: "length (ascii ''Hello World'') = 11" by (simp add: ascii_def)
  have ends: "uint (len (header (string_block 29 29 (ascii ''Ab.;!...AHello World       ??'')))) - 1 = 28"
    by (simp add: string_block_def)
  have tests: "cut_or_zero (ascii ''Ab.;!. ?'') 33" "cut_or_zero (ascii ''Ab.;!. ?'') 0"
    "\<not> cut_or_zero (ascii ''Ab.;!. ?'') 72"
    by (simp_all add: cut_or_zero_def member_of_cut_set_def ascii_def)
  have "strchr (ascii ''Ab.;!. ?'') 33 \<noteq> None \<and>
   strchr (ascii ''Ab.;!. ?'') 0 \<noteq> None \<and>
   strchr (ascii ''Ab.;!. ?'') 72 = None"
    using trim_result [of "ascii ''Ab.;!. ?''" 33] trim_result [of "ascii ''Ab.;!. ?''" 0]
      trim_result [of "ascii ''Ab.;!. ?''" 72] tests
    by blast
  moreover have "trim_start (string_block 29 29 (ascii ''Ab.;!...AHello World       ??'')) (ascii ''Ab.;!. ?'') 0 28 =
     Inr 9 \<and>
   trim_end (string_block 29 29 (ascii ''Ab.;!...AHello World       ??'')) (ascii ''Ab.;!. ?'') 9 28 =
     Inr 19 \<and>
   (\<exists>h'. gb_trim_string padded_heap (Some 0) (ascii ''Ab.;!. ?'') = Inr (Some 0, h') \<and>
      gb_string_ok h' (Some 0) \<and>
      contents h' (Some 0) = Inr (ascii ''Hello World'') \<and>
      gb_string_length h' (Some 0) = Inr 11 \<and>
      char_at h' (Some 0) 11 = Inr 0 \<and>
      gb_string_capacity h' (Some 0) = Inr 29) \<and>
   (\<exists>h'. gb_trim_string hello_heap (Some 0) (ascii ''Helo'') = Inr (Some 0, h') \<and>
      gb_string_length h' (Some 0) = Inr 0 \<and>
      gb_string_capacity h' (Some 0) = Inr 5)"
    using trim_result [of "ascii ''Ab.;!. ?''" 0 padded_heap "Some 0"
        "string_block 29 29 (ascii ''Ab.;!...AHello World       ??'')"
        "ascii ''Ab.;!...AHello World       ??''" 29]
      trim_result [of "ascii ''Helo''" 0 hello_heap "Some 0" "string_block 5 5 (ascii ''Hello'')"
        "ascii ''Hello''" 5]
      padded_heap_ok padded_heap_obs hello_heap_ok hello_heap_deref hello_heap_contents
      hello_heap_obs(2) hello_all_cut
    by (simp add: padded_strip padded_lead eleven ends cut_or_zero_eq) blast
  ultimately show ?thesis by blast
qed

text \<open>
  C7. Trimming a well-formed string succeeds, and trimming the result again with the
  same cut set returns the same handle and leaves the heap as the first trim left it:
  payload and length are those of the first trim.
\<close>

theorem trim_idempotent:
  "gb_string_ok h str \<Longrightarrow>
   \<exists>h1. gb_trim_string h str cut_set = Inr (str, h1) \<and>
        gb_trim_string h1 str cut_set = Inr (str, h1)"
proof -
  assume "gb_string_ok h str"
  then obtain p b where str: "str = Some p" and hp: "h p = Some b" and bok: "block_ok b"
    by (auto simp add: gb_string_ok_iff)
  define ys where "ys = strip_both (in_cut_set cut_set) (payload b)"
  from trim_post [where h = h and cut_set = cut_set, OF hp bok]
  obtain b1 where run: "gb_trim_string h (Some p) cut_set = Inr (Some p, h(p \<mapsto> b1))"
    and ok1: "block_ok b1"
    and l1: "len (header b1) = of_nat (length ys)"
    and pl1: "payload b1 = ys"
    unfolding ys_def by blast
  have h1p: "(h(p \<mapsto> b1)) p = Some b1" by simp
  have again: "strip_both (in_cut_set cut_set) ys = ys"
    unfolding ys_def by (rule strip_both_idem)
  have lead: "length (takeWhile (in_cut_set cut_set) ys) = 0"
    unfolding ys_def by (simp add: takeWhile_strip_both)
  have "length ys = unat (len (header b1))"
    using pl1 by (simp add: payload_def flip: pl1)
  then have zero: "chars b1 (length ys) = 0"
    using ok1 by (simp add: block_ok_def)
  have same: "b1\<lparr>header := (header b1)\<lparr>len := of_nat (length ys)\<rparr>,
       chars := (\<lambda>i. if i < length ys then chars b1 (0 + i)
                     else if i = length ys then 0 else chars b1 i)\<rparr> = b1"
    using zero l1 by (intro block.equality) (auto simp add: fun_eq_iff)
  have "gb_trim_string (h(p \<mapsto> b1)) (Some p) cut_set = Inr (Some p, h(p \<mapsto> b1))"
    using trim_live [where h = "h(p \<mapsto> b1)" and cut_set = cut_set, OF h1p ok1]
    by (simp only: pl1 again lead same fun_upd_upd)
  with run show ?thesis
    by (intro exI [of _ "h(p \<mapsto> b1)"]) (simp add: str)
qed

theorem trim_idempotent_witness:
  "gb_string_ok padded_heap (Some 0) \<and>
   (\<exists>h1. gb_trim_string padded_heap (Some 0) (ascii ''Ab.;!. ?'') = Inr (Some 0, h1) \<and>
        gb_trim_string h1 (Some 0) (ascii ''Ab.;!. ?'') = Inr (Some 0, h1))"
  using trim_idempotent [OF padded_heap_ok, of "ascii ''Ab.;!. ?''"] padded_heap_ok by simp

text \<open>
  C8. \<^verbatim>\<open>strchr(cut_set, 0)\<close> is never null: it finds the terminator of \<^verbatim>\<open>cut_set\<close>.
  So a byte passes the test of \<^verbatim>\<open>gb_trim_string\<close> exactly when it is zero or occurs in
  \<^verbatim>\<open>cut_set\<close> before the terminator, and the payload that a trim leaves is the old one
  without its longest prefix and suffix of bytes that are zero or listed: it is empty,
  or it neither starts nor ends with a zero byte, whatever the cut set is.
\<close>

theorem trim_strips_zero_bytes:
  "strchr cut_set 0 \<noteq> None \<and>
   (in_cut_set cut_set c \<longleftrightarrow> c = 0 \<or> c \<in> set (takeWhile (\<lambda>x. x \<noteq> 0) cut_set)) \<and>
   (gb_string_ok h str \<and> contents h str = Inr xs \<longrightarrow>
     (\<exists>h' ys. gb_trim_string h str cut_set = Inr (str, h') \<and>
        contents h' str = Inr ys \<and>
        ys = strip_both (\<lambda>c. c = 0 \<or> c \<in> set (takeWhile (\<lambda>x. x \<noteq> 0) cut_set)) xs \<and>
        (ys = [] \<or> hd ys \<noteq> 0 \<and> last ys \<noteq> 0)))"
proof (intro conjI impI)
  show "strchr cut_set 0 \<noteq> None"
    using in_cut_set_iff [of cut_set 0] by (simp add: in_cut_set_def)
  show "in_cut_set cut_set c \<longleftrightarrow> c = 0 \<or> c \<in> set (takeWhile (\<lambda>x. x \<noteq> 0) cut_set)"
    by (rule in_cut_set_iff)
next
  assume a: "gb_string_ok h str \<and> contents h str = Inr xs"
  then obtain p b where str: "str = Some p" and hp: "h p = Some b" and bok: "block_ok b"
    by (auto simp add: gb_string_ok_iff)
  have xs: "xs = payload b"
    using a observe(5) [where h = h, OF hp bok] by (simp add: str)
  have P: "in_cut_set cut_set = (\<lambda>c. c = 0 \<or> c \<in> set (takeWhile (\<lambda>x. x \<noteq> 0) cut_set))"
    by (rule ext) (rule in_cut_set_iff)
  define ys where "ys = strip_both (in_cut_set cut_set) xs"
  from trim_post [where h = h and cut_set = cut_set, OF hp bok]
  obtain b' where run: "gb_trim_string h (Some p) cut_set = Inr (Some p, h(p \<mapsto> b'))"
    and ok': "block_ok b'" and pl: "payload b' = ys"
    unfolding xs ys_def by blast
  have hq: "(h(p \<mapsto> b')) p = Some b'" by simp
  have ends: "ys = [] \<or> hd ys \<noteq> 0 \<and> last ys \<noteq> 0"
    using strip_both_ends [of "in_cut_set cut_set" xs] in_cut_set_iff [of cut_set 0]
    unfolding ys_def by (cases "strip_both (in_cut_set cut_set) xs = []") auto
  show "\<exists>h' ys. gb_trim_string h str cut_set = Inr (str, h') \<and>
        contents h' str = Inr ys \<and>
        ys = strip_both (\<lambda>c. c = 0 \<or> c \<in> set (takeWhile (\<lambda>x. x \<noteq> 0) cut_set)) xs \<and>
        (ys = [] \<or> hd ys \<noteq> 0 \<and> last ys \<noteq> 0)"
    using run observe(5) [where h = "h(p \<mapsto> b')", OF hq ok'] ends
    by (intro exI [of _ "h(p \<mapsto> b')"] exI [of _ ys]) (simp add: str pl ys_def flip: P)
qed

theorem trim_strips_zero_bytes_witness:
  "gb_string_ok zeros_heap (Some 0) \<and> contents zeros_heap (Some 0) = Inr [0, 120, 0] \<and>
   (\<exists>h'. gb_trim_string zeros_heap (Some 0) (ascii ''a'') = Inr (Some 0, h') \<and>
      contents h' (Some 0) = Inr [120])"
proof -
  have "strip_both (\<lambda>c. c = 0 \<or> c \<in> set (takeWhile (\<lambda>x. x \<noteq> 0) (ascii ''a''))) [0, 120, 0 :: byte] =
      [120]"
    by (simp add: strip_both_def ascii_def)
  then show ?thesis
    using trim_strips_zero_bytes [of "ascii ''a''" 0 zeros_heap "Some 0" "[0, 120, 0]"]
      zeros_heap_ok zeros_heap_contents
    by auto
qed

section \<open>The invariants\<close>

text \<open>
  C1 as the claim states it fails for reserve and for one construction.

  Reserve: the well-formed \<^verbatim>\<open>"Hi"\<close> (length 2, capacity 8) asked for \<open>2^64 - 1\<close> more bytes
  comes back, on the same block, with length 2 and capacity 1. The sum
  \<open>len + add_len\<close> wraps to 1, \<^verbatim>\<open>gb__string_realloc\<close> keeps the block because the new
  size is smaller than the old one, and \<^verbatim>\<open>gb_string_make_space_for\<close> stores the
  wrapped sum as the capacity.

  Construction: \<^verbatim>\<open>gb_make_string_length(NULL, SIZE_MAX)\<close> returns a live handle to a block
  of 16 bytes with length \<open>2^64 - 1\<close> and capacity \<open>2^56 - 1\<close>, because the terminator is
  written over the last byte of \<open>cap\<close>.
\<close>

theorem invariants_broken:
  "gb_string_ok spare_heap (Some 0) \<and>
   string_invariant spare_heap (Some 0) \<and>
   gb_string_make_space_for no_memory spare_heap (Some 0) 18446744073709551615 =
     Inr (Some 0, spare_heap(0 \<mapsto> (string_block 2 8 (ascii ''Hi''))\<lparr>header := \<lparr>len = 2, cap = 1\<rparr>\<rparr>)) \<and>
   gb_string_length
     (spare_heap(0 \<mapsto> (string_block 2 8 (ascii ''Hi''))\<lparr>header := \<lparr>len = 2, cap = 1\<rparr>\<rparr>)) (Some 0) =
     Inr 2 \<and>
   gb_string_capacity
     (spare_heap(0 \<mapsto> (string_block 2 8 (ascii ''Hi''))\<lparr>header := \<lparr>len = 2, cap = 1\<rparr>\<rparr>)) (Some 0) =
     Inr 1 \<and>
   \<not> string_invariant
     (spare_heap(0 \<mapsto> (string_block 2 8 (ascii ''Hi''))\<lparr>header := \<lparr>len = 2, cap = 1\<rparr>\<rparr>)) (Some 0) \<and>
   gb_make_string_length (alloc_at 1) Map.empty None 18446744073709551615 =
     Inr (Some 1, heap_of 1 \<lparr>bsize = 16,
       header = \<lparr>len = 18446744073709551615, cap = 72057594037927935\<rparr>, chars = chars junk\<rparr>) \<and>
   gb_string_length (heap_of 1 \<lparr>bsize = 16,
       header = \<lparr>len = 18446744073709551615, cap = 72057594037927935\<rparr>, chars = chars junk\<rparr>)
     (Some 1) = Inr 18446744073709551615 \<and>
   gb_string_capacity (heap_of 1 \<lparr>bsize = 16,
       header = \<lparr>len = 18446744073709551615, cap = 72057594037927935\<rparr>, chars = chars junk\<rparr>)
     (Some 1) = Inr 72057594037927935 \<and>
   \<not> string_invariant (heap_of 1 \<lparr>bsize = 16,
       header = \<lparr>len = 18446744073709551615, cap = 72057594037927935\<rparr>, chars = chars junk\<rparr>)
     (Some 1)"
proof -
  have "gb_string_make_space_for no_memory spare_heap (Some 0) 18446744073709551615 =
     Inr (Some 0, spare_heap(0 \<mapsto> (string_block 2 8 (ascii ''Hi''))\<lparr>header := \<lparr>len = 2, cap = 1\<rparr>\<rparr>))"
    using make_space_wraps [where h = spare_heap and a = no_memory
        and add_len = 18446744073709551615, OF spare_heap_live(1) spare_block_ok]
    by (simp add: string_block_def wrapped_numerals)
  moreover have "\<not> (2 :: gb_usize) \<le> 1"
    by (simp add: word_le_nat_alt)
  moreover have "\<not> (18446744073709551615 :: gb_usize) \<le> 72057594037927935"
    by (simp add: word_le_nat_alt)
  ultimately show ?thesis
    using spare_heap_ok ok_invariant [OF spare_heap_ok] make_size_max
    by (simp add: string_invariant_def gb_string_length_def gb_string_capacity_def
        GB_STRING_HEADER_def string_block_def header_size_def heap_of_def)
qed

text \<open>
  C1, amended. Let \<open>str\<close> be a string that satisfies the two invariants
  (\<open>string_invariant\<close>: the accessors of the library give a length that does not exceed
  the capacity, and the character at offset length is a byte of the block and is zero).
  Clear and trim succeed on it and leave a string that satisfies them. Every append,
  every assignment, and every reserve for which \<open>length + additional\<close> is a
  \<^verbatim>\<open>size_t\<close>, returns, when it returns a string, one that satisfies them. So does every
  construction that returns a string, other than
  \<^verbatim>\<open>gb_make_string_length(NULL, SIZE_MAX)\<close>. The allocator is only assumed never to hand
  out a live block.
\<close>

theorem invariant_kept:
  "(gb_make_string_length a h init n = Inr (r, h') \<and> r \<noteq> None \<and>
    \<not> (init = None \<and> n = 18446744073709551615) \<longrightarrow> string_invariant h' r) \<and>
   (string_invariant h str \<longrightarrow>
      (\<exists>h1. gb_clear_string h str = Inr h1 \<and> string_invariant h1 str) \<and>
      (\<exists>h1. gb_trim_string h str cut_set = Inr (str, h1) \<and> string_invariant h1 str) \<and>
      (allocator_ok a h \<longrightarrow>
         (gb_append_string_length a h str other k = Inr (r, h') \<and> r \<noteq> None \<longrightarrow>
            string_invariant h' r) \<and>
         (gb_set_string a h str cstr = Inr (r, h') \<and> r \<noteq> None \<longrightarrow>
            string_invariant h' r) \<and>
         (gb_string_length h str = Inr m \<and> unat m + unat k < 2 ^ 64 \<and>
          gb_string_make_space_for a h str k = Inr (r, h') \<and> r \<noteq> None \<longrightarrow>
            string_invariant h' r)))"
proof -
  have good: "string_invariant g (Some q)" if "g q = Some b'" "block_inv b'" for g q b'
    using that by (auto simp add: string_invariant_iff)
  have made: "string_invariant h' r"
    if run: "gb_make_string_length a h init n = Inr (r, h')" and r: "r \<noteq> None"
      and other: "\<not> (init = None \<and> n = 18446744073709551615)"
  proof -
    from r obtain q where r: "r = Some q" by auto
    have other': "init \<noteq> None \<or> n \<noteq> - 1" using other by auto
    have src: "case init of None \<Rightarrow> True | Some bs \<Rightarrow> unat n \<le> length bs"
    proof (cases init)
      case None
      then show ?thesis by simp
    next
      case (Some bs)
      then show ?thesis
        using make_short_source [of n bs a h q h'] run r by auto
    qed
    from make_result [OF run [unfolded r] src other']
    obtain b' where "h' q = Some b'" "block_ok b'" by blast
    then show ?thesis using good [of h' q b'] by (simp add: r block_ok_inv)
  qed
  have rest: "(\<exists>h1. gb_clear_string h str = Inr h1 \<and> string_invariant h1 str) \<and>
      (\<exists>h1. gb_trim_string h str cut_set = Inr (str, h1) \<and> string_invariant h1 str) \<and>
      (allocator_ok a h \<longrightarrow>
         (gb_append_string_length a h str other k = Inr (r, h') \<and> r \<noteq> None \<longrightarrow>
            string_invariant h' r) \<and>
         (gb_set_string a h str cstr = Inr (r, h') \<and> r \<noteq> None \<longrightarrow>
            string_invariant h' r) \<and>
         (gb_string_length h str = Inr m \<and> unat m + unat k < 2 ^ 64 \<and>
          gb_string_make_space_for a h str k = Inr (r, h') \<and> r \<noteq> None \<longrightarrow>
            string_invariant h' r))"
    if si: "string_invariant h str"
  proof -
    from si obtain p b where str: "str = Some p" and hp: "h p = Some b" and inv: "block_inv b"
      by (auto simp add: string_invariant_iff)
    have obs: "gb_string_length h str = Inr (len (header b))"
      unfolding str using hp block_inv_bounds(4) [OF inv] by (rule gb_string_length_live)
    have cleared: "\<exists>h1. gb_clear_string h str = Inr h1 \<and> string_invariant h1 str"
    proof -
      from clear_inv_post [where h = h, OF hp inv]
      obtain b' where "gb_clear_string h (Some p) = Inr (h(p \<mapsto> b'))" "block_inv b'" by blast
      then show ?thesis
        using good [of "h(p \<mapsto> b')" p b'] by (intro exI [of _ "h(p \<mapsto> b')"]) (simp add: str)
    qed
    have trimmed: "\<exists>h1. gb_trim_string h str cut_set = Inr (str, h1) \<and> string_invariant h1 str"
    proof -
      from trim_inv_post [where h = h and cut_set = cut_set, OF hp inv]
      obtain b' where "gb_trim_string h (Some p) cut_set = Inr (Some p, h(p \<mapsto> b'))" "block_inv b'"
        by blast
      then show ?thesis
        using good [of "h(p \<mapsto> b')" p b'] by (intro exI [of _ "h(p \<mapsto> b')"]) (simp add: str)
    qed
    have appended: "string_invariant h' r"
      if "allocator_ok a h" "gb_append_string_length a h str other k = Inr (r, h')" "r \<noteq> None"
    proof -
      from that(3) obtain q where r: "r = Some q" by auto
      from append_inv [where h = h, OF hp inv that(1) that(2) [unfolded r str]]
      obtain b' where "h' q = Some b'" "block_inv b'" by blast
      then show ?thesis using good [of h' q b'] by (simp add: r)
    qed
    have assigned: "string_invariant h' r"
      if "allocator_ok a h" "gb_set_string a h str cstr = Inr (r, h')" "r \<noteq> None"
    proof -
      from that(3) obtain q where r: "r = Some q" by auto
      from set_string_inv [where h = h, OF hp inv that(1) that(2) [unfolded r str]]
      obtain b' where "h' q = Some b'" "block_inv b'" by blast
      then show ?thesis using good [of h' q b'] by (simp add: r)
    qed
    have reserved: "string_invariant h' r"
      if "allocator_ok a h" "gb_string_length h str = Inr m" "unat m + unat k < 2 ^ 64"
        "gb_string_make_space_for a h str k = Inr (r, h')" "r \<noteq> None"
    proof -
      from that(5) obtain q where r: "r = Some q" by auto
      have m: "m = len (header b)" using that(2) obs by simp
      from reserve_inv [where h = h, OF hp inv that(1) that(3) [unfolded m]
          that(4) [unfolded r str]]
      obtain b' where "h' q = Some b'" "block_inv b'" by blast
      then show ?thesis using good [of h' q b'] by (simp add: r)
    qed
    show ?thesis
      using cleared trimmed appended assigned reserved by blast
  qed
  show ?thesis using made rest by blast
qed

theorem invariant_kept_witness:
  "(\<exists>h'. gb_make_string_length (alloc_at 3) Map.empty (Some (ascii ''Hello'')) 5 = Inr (Some 3, h') \<and>
      string_invariant h' (Some 3)) \<and>
   string_invariant hello_heap (Some 0) \<and>
   (\<exists>h1. gb_clear_string hello_heap (Some 0) = Inr h1 \<and> string_invariant h1 (Some 0)) \<and>
   (\<exists>h1. gb_trim_string hello_heap (Some 0) (ascii ''Ho'') = Inr (Some 0, h1) \<and>
      string_invariant h1 (Some 0)) \<and>
   (\<exists>h'. gb_append_string_length (alloc_at 1) hello_heap (Some 0) (ascii '', '') 2 = Inr (Some 1, h') \<and>
      string_invariant h' (Some 1)) \<and>
   (\<exists>h'. gb_set_string (alloc_at 1) hello_heap (Some 0) (ascii ''Hello, world'') = Inr (Some 1, h') \<and>
      string_invariant h' (Some 1)) \<and>
   (\<exists>h'. gb_string_make_space_for (alloc_at 1) hello_heap (Some 0) 3 = Inr (Some 1, h') \<and>
      string_invariant h' (Some 1)) \<and>
   (\<exists>h'. gb_string_make_space_for (alloc_at 1) hello_heap (Some 0) 18446744073709551600 =
        Inr (Some 0, h') \<and>
      gb_string_capacity h' (Some 0) = Inr 18446744073709551605 \<and>
      string_invariant h' (Some 0))"
proof -
  from hello_runs obtain h1 h2 h3 h4
    where made: "gb_make_string_length (alloc_at 3) Map.empty (Some (ascii ''Hello'')) 5 = Inr (Some 3, h1)"
      and appended: "gb_append_string_length (alloc_at 1) hello_heap (Some 0) (ascii '', '') 2 = Inr (Some 1, h2)"
      and assigned: "gb_set_string (alloc_at 1) hello_heap (Some 0) (ascii ''Hello, world'') = Inr (Some 1, h3)"
      and reserved: "gb_string_make_space_for (alloc_at 1) hello_heap (Some 0) 3 = Inr (Some 1, h4)"
    by blast
  define h5 where "h5 = hello_heap(0 \<mapsto>
      (string_block 5 5 (ascii ''Hello''))\<lparr>header := \<lparr>len = 5, cap = 18446744073709551605\<rparr>\<rparr>)"
  have window: "gb_string_make_space_for (alloc_at 1) hello_heap (Some 0) 18446744073709551600 =
      Inr (Some 0, h5)"
    using make_space_wraps [where h = hello_heap and a = "alloc_at 1"
        and add_len = 18446744073709551600, OF hello_heap_live(1) hello_block_ok]
    by (simp add: string_block_def h5_def)
  have cap5: "gb_string_capacity h5 (Some 0) = Inr 18446744073709551605"
    by (simp add: h5_def gb_string_capacity_def GB_STRING_HEADER_def string_block_def
        header_size_def)
  have si: "string_invariant hello_heap (Some 0)"
    using hello_heap_ok by (rule ok_invariant)
  have fits: "unat (5 :: gb_usize) + unat (3 :: gb_usize) < 2 ^ 64"
    "unat (5 :: gb_usize) + unat (18446744073709551600 :: gb_usize) < 2 ^ 64"
    by simp_all
  have "string_invariant h1 (Some 3)"
    using invariant_kept [where a = "alloc_at 3" and h = Map.empty and init = "Some (ascii ''Hello'')"
        and n = 5 and r = "Some 3" and h' = h1] made by simp
  moreover have "(\<exists>h1. gb_clear_string hello_heap (Some 0) = Inr h1 \<and> string_invariant h1 (Some 0)) \<and>
   (\<exists>h1. gb_trim_string hello_heap (Some 0) (ascii ''Ho'') = Inr (Some 0, h1) \<and>
      string_invariant h1 (Some 0))"
    using invariant_kept [where h = hello_heap and str = "Some 0" and cut_set = "ascii ''Ho''"]
      si by blast
  moreover have "string_invariant h2 (Some 1)"
    using invariant_kept [where a = "alloc_at 1" and h = hello_heap and str = "Some 0"
        and other = "ascii '', ''" and k = 2 and r = "Some 1" and h' = h2]
      si alloc_at_ok [of 0] appended by simp
  moreover have "string_invariant h3 (Some 1)"
    using invariant_kept [where a = "alloc_at 1" and h = hello_heap and str = "Some 0"
        and cstr = "ascii ''Hello, world''" and r = "Some 1" and h' = h3]
      si alloc_at_ok [of 0] assigned by simp
  moreover have "string_invariant h4 (Some 1)"
    using invariant_kept [where a = "alloc_at 1" and h = hello_heap and str = "Some 0"
        and k = 3 and m = 5 and r = "Some 1" and h' = h4]
      si alloc_at_ok [of 0] reserved hello_heap_obs(1) fits(1) by simp
  moreover have "string_invariant h5 (Some 0)"
    using invariant_kept [where a = "alloc_at 1" and h = hello_heap and str = "Some 0"
        and k = 18446744073709551600 and m = 5 and r = "Some 0" and h' = h5]
      si alloc_at_ok [of 0] window hello_heap_obs(1) fits(2) by simp
  ultimately show ?thesis
    using made appended assigned reserved window cap5 si by blast
qed

section \<open>Capacity\<close>




end
